theory Spec2Isabelle
  imports Complex_Main
begin

section \<open>The expiry-date extraction engine of \<^verbatim>\<open>src/ocr_engine.py\<close>\<close>

text \<open>
  A shallow embedding of \<^verbatim>\<open>DateExtractor\<close> and \<^verbatim>\<open>FoodExpiryDetector\<close>.
  Conventions of the model:
  \<^item> a Python \<^verbatim>\<open>str\<close> is a \<open>string\<close>, one \<open>char\<close> per code point; the model covers
    the code points below 256 (ASCII and Latin-1);
  \<^item> a Python \<^verbatim>\<open>int\<close> is an \<open>int\<close>; a Python \<^verbatim>\<open>float\<close> is the \<open>real\<close> it denotes: the
    products of \<open>select_best_expiry\<close> are rounded to the nearest double, as the machine
    rounds them, the means of the token confidences are exact;
  \<^item> an exception is a value: every function that can raise returns \<open>exn + 'a\<close>;
  \<^item> \<^verbatim>\<open>datetime.now(UTC)\<close> is an explicit argument, one per reading of the clock;
  \<^item> OpenCV and Tesseract are parameters (the record \<open>env\<close>).
\<close>

subsection \<open>Exceptions\<close>

datatype exn =
    FileNotFoundError string
  | ValueError string
  | TypeError string
  | ExternalError string

text \<open>\<^verbatim>\<open>str(e)\<close>\<close>

fun exn_str :: "exn \<Rightarrow> string" where
  "exn_str (FileNotFoundError s) = s"
| "exn_str (ValueError s) = s"
| "exn_str (TypeError s) = s"
| "exn_str (ExternalError s) = s"

subsection \<open>Characters\<close>

definition is_digit :: "char \<Rightarrow> bool" where
  "is_digit c = (c \<in> set ''0123456789'')"

definition ascii_upper :: string where
  "ascii_upper = ''ABCDEFGHIJKLMNOPQRSTUVWXYZ''"

definition ascii_lower :: string where
  "ascii_lower = ''abcdefghijklmnopqrstuvwxyz''"

text \<open>
  Whitespace as \<^verbatim>\<open>str.isspace\<close> and the pattern escape \<^verbatim>\<open>\s\<close> see it: tab, line feed,
  vertical tab, form feed, carriage return, the separators 0x1C to 0x1F, space, NEL and
  the no-break space.
\<close>

definition is_space :: "char \<Rightarrow> bool" where
  "is_space c = (c \<in> set [CHR 0x09, CHR 0x0A, CHR 0x0B, CHR 0x0C, CHR 0x0D,
      CHR 0x1C, CHR 0x1D, CHR 0x1E, CHR 0x1F, CHR 0x20, CHR 0x85, CHR 0xA0])"

text \<open>
  A word character (\<^verbatim>\<open>\w\<close>): alphanumeric or underscore. Beyond ASCII, the Latin-1
  letters, superscript digits and vulgar fractions are alphanumeric too.
\<close>

definition latin1_alnum :: "nat \<Rightarrow> bool" where
  "latin1_alnum n = (n = 170 \<or> n = 178 \<or> n = 179 \<or> n = 181 \<or> n = 185 \<or> n = 186
      \<or> n = 188 \<or> n = 189 \<or> n = 190
      \<or> (192 \<le> n \<and> n \<le> 214) \<or> (216 \<le> n \<and> n \<le> 246) \<or> (248 \<le> n \<and> n \<le> 255))"

definition is_word :: "char \<Rightarrow> bool" where
  "is_word c = (is_digit c \<or> c \<in> set ascii_lower \<or> c \<in> set ascii_upper \<or> c = CHR ''_''
      \<or> latin1_alnum (of_char c))"

text \<open>
  Lower-casing of the ASCII letters. It is only ever compared with ASCII letters of the
  patterns and of \<open>MONTH_MAP\<close>, and lower-casing a character outside ASCII never gives
  an ASCII letter.
\<close>

definition to_lower :: "char \<Rightarrow> char" where
  "to_lower c = (case map_of (zip ascii_upper ascii_lower) c of Some l \<Rightarrow> l | None \<Rightarrow> c)"

definition str_lower :: "string \<Rightarrow> string" where
  "str_lower s = map to_lower s"

text \<open>\<^verbatim>\<open>str.isdigit\<close>, on the strings a group can hold (digits matched by \<^verbatim>\<open>\d\<close>, or letters).\<close>

definition str_isdigit :: "string \<Rightarrow> bool" where
  "str_isdigit s = (s \<noteq> [] \<and> (\<forall>c \<in> set s. is_digit c))"

definition digit_val :: "char \<Rightarrow> int" where
  "digit_val c = int (of_char c) - 48"

text \<open>\<^verbatim>\<open>int(s)\<close> on a string of digits.\<close>

definition py_int :: "string \<Rightarrow> int" where
  "py_int s = foldl (\<lambda>acc c. acc * 10 + digit_val c) 0 s"

text \<open>\<^verbatim>\<open>str.strip()\<close>\<close>

definition py_strip :: "string \<Rightarrow> string" where
  "py_strip s = rev (dropWhile is_space (rev (dropWhile is_space s)))"

text \<open>\<^verbatim>\<open>sep.join(xs)\<close>\<close>

fun py_join :: "string \<Rightarrow> string list \<Rightarrow> string" where
  "py_join sep [] = []"
| "py_join sep [x] = x"
| "py_join sep (x # y # ys) = x @ sep @ py_join sep (y # ys)"

text \<open>A name in single quotes, as the messages of the interpreter show it.\<close>

definition quoted :: "string \<Rightarrow> string" where
  "quoted s = CHR 0x27 # s @ [CHR 0x27]"

text \<open>Decimal rendering, as \<^verbatim>\<open>%d\<close> and the zero-padded fields of \<^verbatim>\<open>strftime\<close> give it.\<close>

definition digit_char :: "nat \<Rightarrow> char" where
  "digit_char n = ''0123456789'' ! (n mod 10)"

fun zero_pad :: "nat \<Rightarrow> nat \<Rightarrow> string" where
  "zero_pad 0 n = []"
| "zero_pad (Suc w) n = zero_pad w (n div 10) @ [digit_char n]"

function show_nat :: "nat \<Rightarrow> string" where
  "show_nat n = (if n < 10 then [digit_char n] else show_nat (n div 10) @ [digit_char n])"
  by pat_completeness auto
termination
  by (relation "measure id") auto

declare show_nat.simps [simp del]

definition show_int :: "int \<Rightarrow> string" where
  "show_int i = (if i < 0 then ''-'' @ show_nat (nat (- i)) else show_nat (nat i))"

subsection \<open>\<^verbatim>\<open>datetime\<close>\<close>

text \<open>
  An aware \<^verbatim>\<open>datetime\<close> in UTC. The calendar arithmetic is the one of CPython's
  \<^verbatim>\<open>datetime\<close> module (proleptic Gregorian ordinals).
\<close>

record datetime =
  year :: int
  month :: int
  day :: int
  hour :: int
  minute :: int
  second :: int
  microsecond :: int

definition is_leap :: "int \<Rightarrow> bool" where
  "is_leap y = (y mod 4 = 0 \<and> (y mod 100 \<noteq> 0 \<or> y mod 400 = 0))"

definition days_in_month :: "int \<Rightarrow> int \<Rightarrow> int" where
  "days_in_month y m =
     (if m = 2 then (if is_leap y then 29 else 28)
      else if m = 4 \<or> m = 6 \<or> m = 9 \<or> m = 11 then 30 else 31)"

definition days_before_year :: "int \<Rightarrow> int" where
  "days_before_year y = (y - 1) * 365 + (y - 1) div 4 - (y - 1) div 100 + (y - 1) div 400"

definition days_before_month :: "int \<Rightarrow> int \<Rightarrow> int" where
  "days_before_month y m =
     [0, 31, 59, 90, 120, 151, 181, 212, 243, 273, 304, 334] ! nat (m - 1)
       + (if 2 < m \<and> is_leap y then 1 else 0)"

definition ymd2ord :: "int \<Rightarrow> int \<Rightarrow> int \<Rightarrow> int" where
  "ymd2ord y m d = days_before_year y + days_before_month y m + d"

definition valid_date :: "int \<Rightarrow> int \<Rightarrow> int \<Rightarrow> bool" where
  "valid_date y m d = (1 \<le> y \<and> y \<le> 9999 \<and> 1 \<le> m \<and> m \<le> 12 \<and> 1 \<le> d \<and> d \<le> days_in_month y m)"

definition midnight :: "int \<Rightarrow> int \<Rightarrow> int \<Rightarrow> datetime" where
  "midnight y m d = \<lparr>year = y, month = m, day = d, hour = 0, minute = 0, second = 0, microsecond = 0\<rparr>"

text \<open>A value that is either an \<^verbatim>\<open>int\<close> or a \<^verbatim>\<open>str\<close>, for the variables that hold both.\<close>

datatype pyval = PyInt int | PyStr string

text \<open>\<^verbatim>\<open>datetime(year, month, day, tzinfo=UTC)\<close>: the constructor checks its fields in this order.\<close>

fun datetime_ctor :: "int \<Rightarrow> int \<Rightarrow> pyval \<Rightarrow> exn + datetime" where
  "datetime_ctor y m (PyStr s) =
     Inl (TypeError (quoted ''str'' @ '' object cannot be interpreted as an integer''))"
| "datetime_ctor y m (PyInt d) =
     (if \<not> (1 \<le> y \<and> y \<le> 9999) then Inl (ValueError (''year '' @ show_int y @ '' is out of range''))
      else if \<not> (1 \<le> m \<and> m \<le> 12) then Inl (ValueError ''month must be in 1..12'')
      else if \<not> (1 \<le> d \<and> d \<le> days_in_month y m) then Inl (ValueError ''day is out of range for month'')
      else Inr (midnight y m d))"

definition to_micros :: "datetime \<Rightarrow> int" where
  "to_micros t =
     (((ymd2ord (year t) (month t) (day t) * 24 + hour t) * 60 + minute t) * 60 + second t) * 1000000
       + microsecond t"

text \<open>\<^verbatim>\<open>(a - b).days\<close>: a \<^verbatim>\<open>timedelta\<close> is normalised, so its days are the floor.\<close>

definition timedelta_days :: "datetime \<Rightarrow> datetime \<Rightarrow> int" where
  "timedelta_days a b = (to_micros a - to_micros b) div 86400000000"

text \<open>\<^verbatim>\<open>strftime('%Y-%m-%d')\<close>\<close>

definition strftime_ymd :: "datetime \<Rightarrow> string" where
  "strftime_ymd t =
     zero_pad 4 (nat (year t)) @ ''-'' @ zero_pad 2 (nat (month t)) @ ''-'' @ zero_pad 2 (nat (day t))"

subsection \<open>Regular expressions, as \<^verbatim>\<open>re\<close> matches them\<close>

text \<open>
  The fragment of the pattern language that \<open>DATE_PATTERNS\<close> uses: literals, character
  classes with greedy bounded repetition, sequence, ordered alternation, greedy option,
  capturing groups and the word boundary \<^verbatim>\<open>\b\<close>. Every pattern is compiled with
  \<^verbatim>\<open>re.IGNORECASE\<close>, so literals and classes are compared after lower-casing.
\<close>

datatype cclass = CDigit | CSpace | CRange char char | CChars string | CUnion cclass cclass

fun in_class :: "cclass \<Rightarrow> char \<Rightarrow> bool" where
  "in_class CDigit c = is_digit c"
| "in_class CSpace c = is_space c"
| "in_class (CRange lo hi) c = ((of_char lo :: nat) \<le> of_char c \<and> (of_char c :: nat) \<le> of_char hi)"
| "in_class (CChars s) c = (c \<in> set s)"
| "in_class (CUnion k1 k2) c = (in_class k1 c \<or> in_class k2 c)"

definition cmatch :: "cclass \<Rightarrow> char \<Rightarrow> bool" where
  "cmatch k c = in_class k (to_lower c)"

datatype regex =
    Eps
  | Lit string
  | Rep cclass nat "nat option"
  | Then regex regex
  | Or regex regex
  | Opt regex
  | Grp regex
  | WordB

text \<open>
  The state of the backtracking matcher: the text before the cursor (reversed), the text
  after it, and the groups captured so far.
\<close>

type_synonym mstate = "string \<times> string \<times> string list"

definition lit_match :: "string \<Rightarrow> string \<Rightarrow> bool" where
  "lit_match s a = (length s \<le> length a \<and> str_lower (take (length s) a) = str_lower s)"

definition run_length :: "cclass \<Rightarrow> nat option \<Rightarrow> string \<Rightarrow> nat" where
  "run_length k hi a =
     length (takeWhile (cmatch k) (case hi of None \<Rightarrow> a | Some h \<Rightarrow> take h a))"

definition advance :: "nat \<Rightarrow> mstate \<Rightarrow> mstate" where
  "advance n st = (case st of (b, a, g) \<Rightarrow> (rev (take n a) @ b, drop n a, g))"

definition at_boundary :: "string \<Rightarrow> string \<Rightarrow> bool" where
  "at_boundary b a =
     ((case b of [] \<Rightarrow> False | c # _ \<Rightarrow> is_word c) \<noteq> (case a of [] \<Rightarrow> False | c # _ \<Rightarrow> is_word c))"

definition close_group :: "nat \<Rightarrow> mstate \<Rightarrow> mstate" where
  "close_group n0 st = (case st of (b, a, g) \<Rightarrow> (b, a, g @ [rev (take (length b - n0) b)]))"

text \<open>
  \<open>rmatch r st\<close> lists the states in which \<open>r\<close> can finish when started in \<open>st\<close>, in
  the order in which a backtracking matcher tries them: a greedy repetition tries the
  longest run first, an alternation its left branch first. The first element is the match
  that \<^verbatim>\<open>re\<close> reports.
\<close>

fun rmatch :: "regex \<Rightarrow> mstate \<Rightarrow> mstate list" where
  "rmatch Eps st = [st]"
| "rmatch (Lit s) st = (if lit_match s (fst (snd st)) then [advance (length s) st] else [])"
| "rmatch (Rep k lo hi) st =
     map (\<lambda>n. advance n st) (rev [lo ..< Suc (run_length k hi (fst (snd st)))])"
| "rmatch (Then r1 r2) st = concat (map (rmatch r2) (rmatch r1 st))"
| "rmatch (Or r1 r2) st = rmatch r1 st @ rmatch r2 st"
| "rmatch (Opt r) st = rmatch r st @ [st]"
| "rmatch (Grp r) st = map (close_group (length (fst st))) (rmatch r st)"
| "rmatch WordB st = (if at_boundary (fst st) (fst (snd st)) then [st] else [])"

text \<open>A match object: its span, \<^verbatim>\<open>group(0)\<close> and \<^verbatim>\<open>groups()\<close>.\<close>

record rematch =
  m_start :: nat
  m_end :: nat
  group0 :: string
  groups :: "string list"

definition match_at :: "regex \<Rightarrow> string \<Rightarrow> string \<Rightarrow> rematch option" where
  "match_at r b a =
     (case rmatch r (b, a, []) of
        [] \<Rightarrow> None
      | (b', a', g) # _ \<Rightarrow>
          Some \<lparr>m_start = length b, m_end = length b',
                group0 = rev (take (length b' - length b) b'), groups = g\<rparr>)"

text \<open>The leftmost match at or after the cursor.\<close>

fun search_from :: "regex \<Rightarrow> string \<Rightarrow> string \<Rightarrow> rematch option" where
  "search_from r b [] = match_at r b []"
| "search_from r b (c # cs) =
     (case match_at r b (c # cs) of
        Some m \<Rightarrow> Some m
      | None \<Rightarrow> search_from r (c # b) cs)"

text \<open>\<^verbatim>\<open>re.search(pattern, text, re.IGNORECASE)\<close>\<close>

definition re_search :: "regex \<Rightarrow> string \<Rightarrow> rematch option" where
  "re_search r text = search_from r [] text"

text \<open>
  \<^verbatim>\<open>re.finditer\<close>: the matches from left to right, each search resuming where the previous
  match ended, or one character after an empty match. (No pattern of \<open>DATE_PATTERNS\<close>
  matches the empty string: each needs a digit. The test on \<open>n\<close> fails only after an
  empty match at the end of the text, where the scan stops.)
\<close>

function finditer_from :: "regex \<Rightarrow> string \<Rightarrow> string \<Rightarrow> rematch list" where
  "finditer_from r b a =
     (case search_from r b a of
        None \<Rightarrow> []
      | Some m \<Rightarrow>
          m # (let n = (if m_start m < m_end m then m_end m else m_end m + 1) - length b in
               if 0 < n \<and> n \<le> length a then finditer_from r (rev (take n a) @ b) (drop n a)
               else []))"
  by pat_completeness auto
termination
  by (relation "measure (\<lambda>(r, b, a). length a)") auto

declare finditer_from.simps [simp del]

text \<open>\<^verbatim>\<open>re.finditer(pattern, text, re.IGNORECASE)\<close>\<close>

definition re_finditer :: "regex \<Rightarrow> string \<Rightarrow> rematch list" where
  "re_finditer r text = finditer_from r [] text"

subsection \<open>Python floats\<close>

text \<open>
  A Python \<^verbatim>\<open>float\<close> is an IEEE 754 binary64 number. The model writes a float as the
  real number it denotes and rounds after every operation, as the machine does:
  \<open>double_of x\<close> is the double nearest to \<open>x\<close>, a tie going to the even significand. A
  decimal literal of the source (\<^verbatim>\<open>0.85\<close>, \<^verbatim>\<open>1.4\<close>) stands for \<open>double_of\<close> of it. Infinities
  and NaN are left out: \<open>double_of\<close> is the machine's rounding for magnitudes below
  \<open>2 ^ 1024\<close>, which covers every confidence the program computes.
\<close>

definition round_half_even :: "real \<Rightarrow> int" where
  "round_half_even x =
     (if x - of_int \<lfloor>x\<rfloor> < 1 / 2 then \<lfloor>x\<rfloor>
      else if 1 / 2 < x - of_int \<lfloor>x\<rfloor> then \<lfloor>x\<rfloor> + 1
      else if even \<lfloor>x\<rfloor> then \<lfloor>x\<rfloor> else \<lfloor>x\<rfloor> + 1)"

text \<open>
  The spacing \<open>q = 2 ^ e\<close> of the doubles around the magnitude \<open>a\<close>: the power of two with
  \<open>2 ^ 52 \<le> a / q < 2 ^ 53\<close>, and \<open>2 ^ - 1074\<close> for the subnormal magnitudes below
  \<open>2 ^ - 1022\<close>. The search starts from \<open>q = 1\<close> and doubles or halves \<open>q\<close>; the exponents of
  the doubles span fewer than 1100 steps on either side.
\<close>

fun quantum :: "nat \<Rightarrow> real \<Rightarrow> int \<Rightarrow> real \<Rightarrow> real" where
  "quantum 0 a e q = q"
| "quantum (Suc n) a e q =
     (if 9007199254740992 * q \<le> a then quantum n a (e + 1) (2 * q)
      else if a < 4503599627370496 * q \<and> - 1074 < e then quantum n a (e - 1) (q / 2)
      else q)"

definition round_to :: "real \<Rightarrow> real \<Rightarrow> real" where
  "round_to q a = of_int (round_half_even (a / q)) * q"

definition double_of :: "real \<Rightarrow> real" where
  "double_of x = (if x = 0 then 0 else sgn x * round_to (quantum 1100 \<bar>x\<bar> 0 1) \<bar>x\<bar>)"

text \<open>The product \<^verbatim>\<open>a * b\<close> of two floats.\<close>

definition float_mul :: "real \<Rightarrow> real \<Rightarrow> real" where
  "float_mul a b = double_of (double_of a * double_of b)"

subsection \<open>\<^verbatim>\<open>DateExtractor\<close>\<close>

fun seq :: "regex list \<Rightarrow> regex" where
  "seq [] = Eps"
| "seq [r] = r"
| "seq (r # rs) = Then r (seq rs)"

fun alts :: "string list \<Rightarrow> regex" where
  "alts [] = Lit []"
| "alts [s] = Lit s"
| "alts (s # ss) = Or (Lit s) (alts ss)"

definition d12 :: regex where "d12 = Rep CDigit 1 (Some 2)"
definition d24 :: regex where "d24 = Rep CDigit 2 (Some 4)"
definition d4 :: regex where "d4 = Rep CDigit 4 (Some 4)"
definition sep :: regex where "sep = Rep (CChars ''-/.'') 1 (Some 1)"
definition dot :: regex where "dot = Rep (CChars ''.'') 1 (Some 1)"
definition opt_dot :: regex where "opt_dot = Rep (CChars ''.'') 0 (Some 1)"
definition spaces :: regex where "spaces = Rep CSpace 0 None"
definition letters :: regex where "letters = Rep (CRange CHR ''a'' CHR ''z'') 0 None"

definition month_abbrevs :: "string list" where
  "month_abbrevs = [''Jan'', ''Feb'', ''Mar'', ''Apr'', ''May'', ''Jun'',
                    ''Jul'', ''Aug'', ''Sep'', ''Oct'', ''Nov'', ''Dec'']"

definition month_names :: regex where
  "month_names = alts month_abbrevs"

definition ordinal :: regex where
  "ordinal = Opt (alts [''st'', ''nd'', ''rd'', ''th''])"

text \<open>The seven entries of \<open>DATE_PATTERNS\<close>, in the order of the source.\<close>

text \<open>\<^verbatim>\<open>\b(\d{1,2})[-/.](\d{1,2})[-/.](\d{2,4})\b\<close>\<close>

definition pat_numeric :: regex where
  "pat_numeric = seq [WordB, Grp d12, sep, Grp d12, sep, Grp d24, WordB]"

text \<open>\<^verbatim>\<open>\b(\d{4})[-/.](\d{1,2})[-/.](\d{1,2})\b\<close>\<close>

definition pat_iso :: regex where
  "pat_iso = seq [WordB, Grp d4, sep, Grp d12, sep, Grp d12, WordB]"

text \<open>\<^verbatim>\<open>\b(\d{1,2})\.(\d{1,2})\.(\d{2,4})\b\<close>\<close>

definition pat_dotted :: regex where
  "pat_dotted = seq [WordB, Grp d12, dot, Grp d12, dot, Grp d24, WordB]"

text \<open>\<^verbatim>\<open>\b(\d{1,2})\s*(?:st|nd|rd|th)?\s*(Jan|...|Dec)[a-z]*\.?\s*(\d{4})\b\<close>\<close>

definition pat_day_month :: regex where
  "pat_day_month = seq [WordB, Grp d12, spaces, ordinal, spaces, Grp month_names, letters,
                        opt_dot, spaces, Grp d4, WordB]"

text \<open>\<^verbatim>\<open>\b(Jan|...|Dec)[a-z]*\.?\s*(\d{1,2})(?:st|nd|rd|th)?[,.\s]*(\d{4})\b\<close>\<close>

definition pat_month_day :: regex where
  "pat_month_day = seq [WordB, Grp month_names, letters, opt_dot, spaces, Grp d12, ordinal,
                        Rep (CUnion (CChars '',.'') CSpace) 0 None, Grp d4, WordB]"

text \<open>\<^verbatim>\<open>(?:EXP|Exp|Expiry|Best Before|Use By|BB|USE BY|Sell By|MFG|Manufactured)\s*[:=]?\s*(\d{1,2}[-/.]\d{1,2}[-/.]\d{2,4})\<close>\<close>

definition label_keywords :: "string list" where
  "label_keywords = [''EXP'', ''Exp'', ''Expiry'', ''Best Before'', ''Use By'', ''BB'',
                     ''USE BY'', ''Sell By'', ''MFG'', ''Manufactured'']"

definition pat_keyword :: regex where
  "pat_keyword = seq [alts label_keywords,
                      spaces, Rep (CChars '':='') 0 (Some 1), spaces,
                      Grp (seq [d12, sep, d12, sep, d24])]"

text \<open>\<^verbatim>\<open>(?:EXP|Exp|Expiry|Best Before|Use By)\s*[:=]?\s*(\d{4}[-/.]\d{1,2}[-/.]\d{1,2})\<close>\<close>

definition pat_keyword_iso :: regex where
  "pat_keyword_iso = seq [alts [''EXP'', ''Exp'', ''Expiry'', ''Best Before'', ''Use By''],
                          spaces, Rep (CChars '':='') 0 (Some 1), spaces,
                          Grp (seq [d4, sep, d12, sep, d12])]"

definition DATE_PATTERNS :: "regex list" where
  "DATE_PATTERNS = [pat_numeric, pat_iso, pat_dotted, pat_day_month, pat_month_day,
                    pat_keyword, pat_keyword_iso]"

definition MONTH_MAP :: "string \<rightharpoonup> int" where
  "MONTH_MAP = map_of [(''jan'', 1), (''feb'', 2), (''mar'', 3), (''apr'', 4), (''may'', 5),
     (''jun'', 6), (''jul'', 7), (''aug'', 8), (''sep'', 9), (''oct'', 10), (''nov'', 11),
     (''dec'', 12)]"

text \<open>
  The body of the loop of \<open>parse_date\<close> from \<^verbatim>\<open>groups = match.groups()\<close> to the assignment
  of \<^verbatim>\<open>day, month, year\<close>. \<open>Inr None\<close> is \<^verbatim>\<open>continue\<close>: a match that has not exactly three
  groups is skipped, and so is an unknown month. In the month-name branch \<^verbatim>\<open>day\<close> and
  \<^verbatim>\<open>year\<close> keep the matched strings; in the numeric branch the groups that are digits (at
  most three) are converted and unpacked into three names, which raises when there are
  fewer.
\<close>

definition interpret_groups :: "string list \<Rightarrow> exn + (pyval \<times> int \<times> pyval) option" where
  "interpret_groups gs =
     (case gs of
        [g0, g1, g2] \<Rightarrow>
          if \<not> str_isdigit g1 then
            (case MONTH_MAP (take 3 (str_lower g1)) of
               None \<Rightarrow> Inr None
             | Some m \<Rightarrow> Inr (Some (PyStr g0, m, PyStr g2)))
          else
            (case map py_int (filter str_isdigit gs) of
               [a, b, c] \<Rightarrow>
                 if 1 \<le> a \<and> a \<le> 31 \<and> 1 \<le> b \<and> b \<le> 12 then Inr (Some (PyInt a, b, PyInt c))
                 else Inr (Some (PyInt b, a, PyInt c))
             | ds \<Rightarrow>
                 Inl (ValueError (''not enough values to unpack (expected 3, got ''
                        @ show_nat (length ds) @ '')'')))
      | _ \<Rightarrow> Inr None)"

text \<open>\<^verbatim>\<open>if year < 100: year += 2000 if year < 50 else 1900\<close>; comparing a string with 100 raises.\<close>

fun fix_year :: "pyval \<Rightarrow> exn + int" where
  "fix_year (PyStr s) =
     Inl (TypeError (quoted ''<'' @ '' not supported between instances of '' @ quoted ''str''
            @ '' and '' @ quoted ''int''))"
| "fix_year (PyInt y) = Inr (if y < 100 then y + (if y < 50 then 2000 else 1900) else y)"

text \<open>
  \<open>parse_date\<close>, the loop over the patterns. A \<^verbatim>\<open>ValueError\<close> of the constructor is caught
  and the loop goes on; a date outside 2020..2035 falls through to the next pattern.
\<close>

fun parse_with :: "regex list \<Rightarrow> string \<Rightarrow> exn + datetime option" where
  "parse_with [] text = Inr None"
| "parse_with (p # ps) text =
     (case re_search p text of
        None \<Rightarrow> parse_with ps text
      | Some m \<Rightarrow>
          (case interpret_groups (groups m) of
             Inl e \<Rightarrow> Inl e
           | Inr None \<Rightarrow> parse_with ps text
           | Inr (Some (d, mo, y)) \<Rightarrow>
               (case fix_year y of
                  Inl e \<Rightarrow> Inl e
                | Inr y' \<Rightarrow>
                    (case datetime_ctor y' mo d of
                       Inl (ValueError s) \<Rightarrow> parse_with ps text
                     | Inl e \<Rightarrow> Inl e
                     | Inr dt \<Rightarrow>
                         if 2020 \<le> y' \<and> y' \<le> 2035 then Inr (Some dt)
                         else parse_with ps text))))"

definition parse_date :: "string \<Rightarrow> exn + datetime option" where
  "parse_date text = parse_with DATE_PATTERNS text"

record candidate =
  date :: datetime
  raw :: string
  confidence :: real

text \<open>The inner loop of \<open>extract_potential_dates\<close>, over the matches of one pattern.\<close>

fun collect_matches :: "rematch list \<Rightarrow> candidate list \<Rightarrow> exn + candidate list" where
  "collect_matches [] candidates = Inr candidates"
| "collect_matches (m # ms) candidates =
     (case parse_date (group0 m) of
        Inl e \<Rightarrow> Inl e
      | Inr None \<Rightarrow> collect_matches ms candidates
      | Inr (Some dt) \<Rightarrow>
          collect_matches ms (candidates @ [\<lparr>date = dt, raw = group0 m, confidence = 0.85\<rparr>]))"

text \<open>The outer loop, over the patterns.\<close>

fun collect_patterns :: "regex list \<Rightarrow> string \<Rightarrow> candidate list \<Rightarrow> exn + candidate list" where
  "collect_patterns [] text candidates = Inr candidates"
| "collect_patterns (p # ps) text candidates =
     (case collect_matches (re_finditer p text) candidates of
        Inl e \<Rightarrow> Inl e
      | Inr candidates' \<Rightarrow> collect_patterns ps text candidates')"

definition extract_potential_dates :: "string \<Rightarrow> exn + candidate list" where
  "extract_potential_dates text = collect_patterns DATE_PATTERNS text []"

record scored = candidate +
  days_until :: int

text \<open>The body of the scoring loop of \<open>select_best_expiry\<close>.\<close>

definition score_candidate :: "datetime \<Rightarrow> candidate \<Rightarrow> scored" where
  "score_candidate now cand =
     (let days = timedelta_days (date cand) now;
          conf = confidence cand;
          conf' = (if 1 \<le> days \<and> days \<le> 540 then float_mul conf 1.4
                   else if 1 \<le> days \<and> days \<le> 1825 then float_mul conf 0.9
                   else float_mul conf 0.3)
      in \<lparr>date = date cand, raw = raw cand, confidence = min conf' 1.0, days_until = days\<rparr>)"

text \<open>
  \<^verbatim>\<open>max(scored, key=lambda x: x['confidence'])\<close>: the running maximum is replaced only by
  a strictly greater key, so the first of several maximal items is returned.
\<close>

fun max_by_confidence :: "scored \<Rightarrow> scored list \<Rightarrow> scored" where
  "max_by_confidence best [] = best"
| "max_by_confidence best (x # xs) =
     max_by_confidence (if confidence best < confidence x then x else best) xs"

text \<open>\<open>select_best_expiry\<close>; \<open>now\<close> is what \<^verbatim>\<open>datetime.now(UTC)\<close> returns inside it.\<close>

definition select_best_expiry :: "datetime \<Rightarrow> candidate list \<Rightarrow> scored option" where
  "select_best_expiry now candidates =
     (if candidates = [] then None
      else (case map (score_candidate now) candidates of
              [] \<Rightarrow> None
            | s # ss \<Rightarrow> Some (max_by_confidence s ss)))"

subsection \<open>\<^verbatim>\<open>ImagePreprocessor\<close> and \<^verbatim>\<open>FoodExpiryDetector\<close>\<close>

text \<open>
  The world outside the program: the file system and OpenCV's decoder (\<open>is_file\<close>,
  \<open>imread\<close>), the OpenCV chain of \<^verbatim>\<open>preprocess\<close> (\<open>cv_pipeline\<close>, which may raise), and
  Tesseract. \<open>tesseract img psm\<close> is the outcome of the two calls of one pass
  (\<^verbatim>\<open>image_to_string\<close>, then \<^verbatim>\<open>image_to_data\<close> with the conversion \<^verbatim>\<open>int(c)\<close> of its
  confidences): the text and the token confidences, or the exception that one of them
  raised.
\<close>

record 'img env =
  is_file :: "string \<Rightarrow> bool"
  imread :: "string \<Rightarrow> 'img option"
  cv_pipeline :: "'img \<Rightarrow> exn + 'img"
  tesseract :: "'img \<Rightarrow> nat \<Rightarrow> exn + (string \<times> int list)"

definition load_image :: "'img env \<Rightarrow> string \<Rightarrow> exn + 'img" where
  "load_image e image_path =
     (if \<not> is_file e image_path then Inl (FileNotFoundError (''Image not found: '' @ image_path))
      else (case imread e image_path of
              None \<Rightarrow> Inl (ValueError (''Failed to load image: '' @ image_path))
            | Some img \<Rightarrow> Inr img))"

definition preprocess :: "'img env \<Rightarrow> 'img \<Rightarrow> exn + 'img" where
  "preprocess e img = cv_pipeline e img"

text \<open>\<^verbatim>\<open>np.mean\<close>\<close>

definition mean :: "real list \<Rightarrow> real" where
  "mean xs = sum_list xs / real (length xs)"

text \<open>
  The loop of \<^verbatim>\<open>_extract_text\<close> over the page segmentation modes, with its two
  accumulators. An exception inside the \<^verbatim>\<open>try\<close> skips the pass.
\<close>

fun ocr_passes :: "(nat \<Rightarrow> exn + (string \<times> int list)) \<Rightarrow> nat list
    \<Rightarrow> string list \<times> real list \<Rightarrow> string list \<times> real list" where
  "ocr_passes run [] acc = acc"
| "ocr_passes run (psm # rest) (texts, confs) =
     (case run psm of
        Inl e \<Rightarrow> ocr_passes run rest (texts, confs)
      | Inr (text, conf) \<Rightarrow>
          (let valid_confs = filter (\<lambda>c. 0 \<le> c) conf;
               avg = (if valid_confs \<noteq> [] then mean (map real_of_int valid_confs) / 100.0 else 0.0)
           in if py_strip text \<noteq> [] then ocr_passes run rest (texts @ [text], confs @ [avg])
              else ocr_passes run rest (texts, confs)))"

definition extract_text :: "(nat \<Rightarrow> exn + (string \<times> int list)) \<Rightarrow> string \<times> real" where
  "extract_text run =
     (case ocr_passes run [6, 7, 11, 3] ([], []) of
        (texts, confs) \<Rightarrow> if texts = [] then ([], 0.0) else (py_join '' '' texts, mean confs))"

text \<open>
  \<^verbatim>\<open>round(x, 3)\<close>: the multiple of 0.001 nearest to the float \<open>x\<close>, the even one of the two
  when \<open>x\<close> lies exactly halfway (\<^verbatim>\<open>round(0.0625, 3)\<close> is \<^verbatim>\<open>0.062\<close>). The result is written as
  that decimal, which stands for the double nearest to it.
\<close>

definition round3 :: "real \<Rightarrow> real" where
  "round3 x = real_of_int (round_half_even (x * 1000)) / 1000"

text \<open>
  The dictionaries that \<open>extract_expiry_date\<close> returns, one constructor for each:
  \<^item> \<open>Success date raw_text confidence days_until_expiry ocr_confidence\<close>;
  \<^item> \<open>NoDateMatched raw_text ocr_confidence\<close>, the failure with the error
    \<^verbatim>\<open>No date pattern matched in text\<close>;
  \<^item> \<open>NoValidExpiry candidates ocr_confidence\<close>, the failure with the error
    \<^verbatim>\<open>Found dates but none valid as future expiry\<close>;
  \<^item> \<open>Crashed error ocr_confidence\<close>, the failure of the \<^verbatim>\<open>except Exception\<close> handler.
\<close>

datatype extraction_result =
    Success string string real int real
  | NoDateMatched string real
  | NoValidExpiry "string list" real
  | Crashed string real

fun result_success :: "extraction_result \<Rightarrow> bool" where
  "result_success (Success d r c n oc) = True"
| "result_success (NoDateMatched t oc) = False"
| "result_success (NoValidExpiry rs oc) = False"
| "result_success (Crashed msg oc) = False"

fun result_error :: "extraction_result \<Rightarrow> string option" where
  "result_error (Success d r c n oc) = None"
| "result_error (NoDateMatched t oc) = Some ''No date pattern matched in text''"
| "result_error (NoValidExpiry rs oc) = Some ''Found dates but none valid as future expiry''"
| "result_error (Crashed msg oc) = Some msg"

fun result_ocr_confidence :: "extraction_result \<Rightarrow> real" where
  "result_ocr_confidence (Success d r c n oc) = oc"
| "result_ocr_confidence (NoDateMatched t oc) = oc"
| "result_ocr_confidence (NoValidExpiry rs oc) = oc"
| "result_ocr_confidence (Crashed msg oc) = oc"

text \<open>
  The \<^verbatim>\<open>try\<close> block of \<open>extract_expiry_date\<close>. \<open>now1\<close> is the clock as
  \<open>select_best_expiry\<close> reads it, \<open>now2\<close> the clock as the facade reads it afterwards for
  \<^verbatim>\<open>days_left\<close>.
\<close>

definition detect :: "'img env \<Rightarrow> string \<Rightarrow> datetime \<Rightarrow> datetime \<Rightarrow> exn + extraction_result" where
  "detect e image_path now1 now2 =
     (case load_image e image_path of
        Inl ex \<Rightarrow> Inl ex
      | Inr raw_img \<Rightarrow>
          (case preprocess e raw_img of
             Inl ex \<Rightarrow> Inl ex
           | Inr processed \<Rightarrow>
               (case extract_text (tesseract e processed) of
                  (text, ocr_conf) \<Rightarrow>
                    (case extract_potential_dates text of
                       Inl ex \<Rightarrow> Inl ex
                     | Inr candidates \<Rightarrow>
                         if candidates = [] then
                           Inr (NoDateMatched
                                  (if 200 < length text then take 200 text @ ''...'' else text)
                                  ocr_conf)
                         else
                           (case select_best_expiry now1 candidates of
                              None \<Rightarrow> Inr (NoValidExpiry (map raw candidates) ocr_conf)
                            | Some best \<Rightarrow>
                                Inr (Success (strftime_ymd (date best)) (raw best)
                                       (round3 (confidence best))
                                       (timedelta_days (date best) now2)
                                       (round3 ocr_conf)))))))"

text \<open>\<open>extract_expiry_date\<close>: the \<^verbatim>\<open>try\<close> block under its \<^verbatim>\<open>except Exception\<close> handler.\<close>

definition extract_expiry_date ::
    "'img env \<Rightarrow> string \<Rightarrow> datetime \<Rightarrow> datetime \<Rightarrow> extraction_result" where
  "extract_expiry_date e image_path now1 now2 =
     (case detect e image_path now1 now2 of
        Inl ex \<Rightarrow> Crashed (exn_str ex) 0.0
      | Inr result \<Rightarrow> result)"

subsection \<open>The specification's own words, for comparison with the code\<close>



text \<open>
  One recognition pass as the specification words it: dropped when it throws or when its
  text is empty or all whitespace, otherwise kept with the mean of its non-negative token
  confidences over 100 (0 when there is none).
\<close>

definition spec_pass :: "exn + (string \<times> int list) \<Rightarrow> (string \<times> real) option" where
  "spec_pass outcome =
     (case outcome of
        Inl e \<Rightarrow> None
      | Inr (body, conf) \<Rightarrow>
          if \<forall>c \<in> set body. is_space c then None
          else Some (body,
                 (let toks = filter (\<lambda>c. 0 \<le> c) conf in
                  if toks = [] then 0
                  else (sum_list (map real_of_int toks) / real (length toks)) / 100)))"

text \<open>
  The adapter as the specification words it: the kept texts joined by one space in the
  order of the passes, and the arithmetic mean of the kept confidences; empty text and 0
  when nothing is kept.
\<close>

definition spec_recognize :: "(nat \<Rightarrow> exn + (string \<times> int list)) \<Rightarrow> string \<times> real" where
  "spec_recognize run =
     (let kept = List.map_filter (\<lambda>psm. spec_pass (run psm)) [6, 7, 11, 3] in
      if kept = [] then ([], 0)
      else (py_join '' '' (map fst kept), sum_list (map snd kept) / real (length kept)))"

text \<open>
  The candidate that \<open>extract_potential_dates\<close> appends for one occurrence of a pattern,
  if \<open>parse_date\<close> accepts the matched text.
\<close>

definition accepted :: "rematch \<Rightarrow> candidate option" where
  "accepted m =
     (case parse_date (group0 m) of
        Inr (Some dt) \<Rightarrow> Some \<lparr>date = dt, raw = group0 m, confidence = 0.85\<rparr>
      | _ \<Rightarrow> None)"

text \<open>Occurrences in text order that do not overlap.\<close>

definition disjoint_spans :: "rematch list \<Rightarrow> bool" where
  "disjoint_spans ms = sorted_wrt (\<lambda>m m'. m_start m < m_start m' \<and> m_end m \<le> m_start m') ms"

text \<open>
  How a label prints the fields of a date: a day or a month with or without a leading
  zero, a year with four digits or with its last two.
\<close>

definition field_renderings :: "nat \<Rightarrow> string list" where
  "field_renderings n = [show_nat n, zero_pad 2 n]"

definition year_renderings :: "nat \<Rightarrow> string list" where
  "year_renderings y = [zero_pad 4 y, zero_pad 2 (y mod 100)]"

text \<open>The text holds the name of a month, in any case, somewhere.\<close>

fun has_month :: "string \<Rightarrow> bool" where
  "has_month [] = False"
| "has_month (c # cs) = ((\<exists>mon \<in> set month_abbrevs. lit_match mon (c # cs)) \<or> has_month cs)"

text \<open>
  Where a printed date stands in a text. In front of it: nothing, or a character that is
  not a word character; and, when that character is one of the separators \<open>-\<close>, \<open>/\<close>
  and \<open>.\<close>, no digit anywhere in front (digits and a separator just before the date
  would read as one more field of it). Behind it: nothing, or a character that is not a
  word character.
\<close>

definition delimited_before :: "string \<Rightarrow> bool" where
  "delimited_before pre =
     (pre = [] \<or> (\<not> is_word (last pre)
                   \<and> (last pre \<notin> set ''-/.'' \<or> (\<forall>c \<in> set pre. \<not> is_digit c))))"

definition delimited_after :: "string \<Rightarrow> bool" where
  "delimited_after post = (post = [] \<or> \<not> is_word (hd post))"

text \<open>
  The text has no occurrence of the two shapes with the name of a month (a day, the name
  of a month and a year; the name of a month, a day and a year), on which
  \<open>extract_potential_dates\<close> raises.
\<close>

definition no_month_shapes :: "string \<Rightarrow> bool" where
  "no_month_shapes text =
     (re_finditer pat_day_month text = [] \<and> re_finditer pat_month_day text = [])"

subsection \<open>Auxiliary notions for the proofs about the patterns\<close>

text \<open>The number of groups of a pattern.\<close>

fun ngroups :: "regex \<Rightarrow> nat" where
  "ngroups (Grp r) = Suc (ngroups r)"
| "ngroups (Then r1 r2) = ngroups r1 + ngroups r2"
| "ngroups (Or r1 r2) = ngroups r1 + ngroups r2"
| "ngroups (Opt r) = ngroups r"
| "ngroups r = 0"

text \<open>
  Every match captures the same groups in the same order: no group stands under an
  alternation or an option, or inside another group.
\<close>

fun fixed_groups :: "regex \<Rightarrow> bool" where
  "fixed_groups (Grp r) = (ngroups r = 0)"
| "fixed_groups (Then r1 r2) = (fixed_groups r1 \<and> fixed_groups r2)"
| "fixed_groups (Or r1 r2) = (ngroups r1 = 0 \<and> ngroups r2 = 0)"
| "fixed_groups (Opt r) = (ngroups r = 0)"
| "fixed_groups r = True"

text \<open>Moreover every group is a non-empty run of digits.\<close>

fun digit_groups :: "regex \<Rightarrow> bool" where
  "digit_groups (Grp (Rep CDigit lo hi)) = (0 < lo)"
| "digit_groups (Grp r) = False"
| "digit_groups (Then r1 r2) = (digit_groups r1 \<and> digit_groups r2)"
| "digit_groups (Or r1 r2) = (ngroups r1 = 0 \<and> ngroups r2 = 0)"
| "digit_groups (Opt r) = (ngroups r = 0)"
| "digit_groups r = True"

text \<open>Every match of the pattern goes through one of the literals \<open>L\<close>.\<close>

fun must_lit :: "string list \<Rightarrow> regex \<Rightarrow> bool" where
  "must_lit L (Lit s) = (s \<in> set L)"
| "must_lit L (Then r1 r2) = (must_lit L r1 \<or> must_lit L r2)"
| "must_lit L (Or r1 r2) = (must_lit L r1 \<and> must_lit L r2)"
| "must_lit L (Grp r) = must_lit L r"
| "must_lit L r = False"

text \<open>
  Every character that a match of the pattern consumes satisfies \<open>Q\<close>, once lowered (the
  matcher ignores case).
\<close>

fun consumes :: "(char \<Rightarrow> bool) \<Rightarrow> regex \<Rightarrow> bool" where
  "consumes Q (Lit s) = (\<forall>c \<in> set s. Q (to_lower c))"
| "consumes Q (Rep k lo hi) = (\<forall>c. in_class k c \<longrightarrow> Q c)"
| "consumes Q (Then r1 r2) = (consumes Q r1 \<and> consumes Q r2)"
| "consumes Q (Or r1 r2) = (consumes Q r1 \<and> consumes Q r2)"
| "consumes Q (Opt r) = consumes Q r"
| "consumes Q (Grp r) = consumes Q r"
| "consumes Q r = True"

text \<open>The least number of characters that a match of the pattern consumes.\<close>

fun min_len :: "regex \<Rightarrow> nat" where
  "min_len (Lit s) = length s"
| "min_len (Rep k lo hi) = lo"
| "min_len (Then r1 r2) = min_len r1 + min_len r2"
| "min_len (Or r1 r2) = min (min_len r1) (min_len r2)"
| "min_len (Grp r) = min_len r"
| "min_len r = 0"
section \<open>The matcher\<close>

subsection \<open>What a match consumes and captures\<close>

lemma rmatch_extends:
  "st' \<in> set (rmatch r st) \<Longrightarrow>
     \<exists>w gs. fst (snd st) = w @ fst (snd st') \<and> fst st' = rev w @ fst st
        \<and> snd (snd st') = snd (snd st) @ gs"
proof (induction r arbitrary: st st')
  case Eps
  then show ?case by simp
next
  case (Lit s)
  then show ?case
    by (cases st) (auto simp: advance_def split: if_splits intro!: exI [of _ "take (length s) (fst (snd st))"])
next
  case (Rep k lo hi)
  then obtain n where "st' = advance n st" by auto
  then show ?case
    by (cases st) (auto simp: advance_def intro!: exI [of _ "take n (fst (snd st))"])
next
  case (Then r1 r2)
  then obtain st1 where s1: "st1 \<in> set (rmatch r1 st)" and s2: "st' \<in> set (rmatch r2 st1)"
    by auto
  from Then.IH(1) [OF s1] obtain w1 g1 where
    a1: "fst (snd st) = w1 @ fst (snd st1)" and b1: "fst st1 = rev w1 @ fst st"
    and c1: "snd (snd st1) = snd (snd st) @ g1" by blast
  from Then.IH(2) [OF s2] obtain w2 g2 where
    a2: "fst (snd st1) = w2 @ fst (snd st')" and b2: "fst st' = rev w2 @ fst st1"
    and c2: "snd (snd st') = snd (snd st1) @ g2" by blast
  have "fst (snd st) = (w1 @ w2) @ fst (snd st')" using a1 a2 by simp
  moreover have "fst st' = rev (w1 @ w2) @ fst st" using b1 b2 by simp
  moreover have "snd (snd st') = snd (snd st) @ (g1 @ g2)" using c1 c2 by simp
  ultimately show ?case by blast
next
  case (Or r1 r2)
  then show ?case by auto
next
  case (Opt r)
  then show ?case by auto
next
  case (Grp r)
  then obtain st0 where s0: "st0 \<in> set (rmatch r st)" and e: "st' = close_group (length (fst st)) st0"
    by auto
  from Grp.IH [OF s0] obtain w g0 where
    a: "fst (snd st) = w @ fst (snd st0)" and b: "fst st0 = rev w @ fst st"
    and c: "snd (snd st0) = snd (snd st) @ g0" by blast
  obtain b0 a0 gs0 where st0: "st0 = (b0, a0, gs0)" by (cases st0)
  have "snd (snd st') = snd (snd st) @ (g0 @ [rev (take (length b0 - length (fst st)) b0)])"
    using e c st0 by (simp add: close_group_def)
  moreover have "fst (snd st') = fst (snd st0)" "fst st' = fst st0"
    using e st0 by (simp_all add: close_group_def)
  ultimately show ?case using a b by metis
next
  case WordB
  then show ?case by (auto split: if_splits)
qed

lemma in_rmatch_Then:
  "st' \<in> set (rmatch (Then r1 r2) st) \<longleftrightarrow> (\<exists>st1 \<in> set (rmatch r1 st). st' \<in> set (rmatch r2 st1))"
  by auto

lemma in_rmatch_Grp:
  assumes "st' \<in> set (rmatch (Grp r) (b, a, g))"
  shows "\<exists>w g0. (rev w @ b, fst (snd st'), g0) \<in> set (rmatch r (b, a, g))
            \<and> a = w @ fst (snd st') \<and> st' = (rev w @ b, fst (snd st'), g0 @ [w])"
proof -
  from assms obtain st0 where s0: "st0 \<in> set (rmatch r (b, a, g))"
    and e: "st' = close_group (length b) st0" by auto
  from rmatch_extends [OF s0] obtain w where
    a: "a = w @ fst (snd st0)" and b: "fst st0 = rev w @ b" by auto
  obtain b0 a0 g0 where st0: "st0 = (b0, a0, g0)" by (cases st0)
  have "st' = (rev w @ b, a0, g0 @ [w])"
    using e st0 b by (simp add: close_group_def)
  then show ?thesis using s0 st0 a b by auto
qed

lemma run_length_takeWhile:
  assumes "n \<le> run_length k hi a"
  shows "\<forall>c \<in> set (take n a). cmatch k c"
proof -
  let ?xs = "case hi of None \<Rightarrow> a | Some h \<Rightarrow> take h a"
  let ?tw = "takeWhile (cmatch k) ?xs"
  have "\<exists>zs. a = ?xs @ zs"
  proof (cases hi)
    case None
    then show ?thesis by simp
  next
    case (Some h)
    have "a = take h a @ drop h a" by simp
    then show ?thesis using Some by (metis option.simps(5))
  qed
  then obtain zs where z: "a = ?xs @ zs" by blast
  have "?xs = ?tw @ dropWhile (cmatch k) ?xs" by simp
  then obtain ys where y: "?xs = ?tw @ ys" by blast
  have n: "n \<le> length ?tw" using assms by (simp add: run_length_def)
  have "take n a = take n (?tw @ (ys @ zs))"
    using z y by (metis append.assoc)
  also have "\<dots> = take n ?tw" using n by simp
  finally have "set (take n a) \<subseteq> set ?tw" by (metis set_take_subset)
  then show ?thesis by (auto dest: set_takeWhileD)
qed

lemma in_rmatch_Rep:
  assumes "st' \<in> set (rmatch (Rep k lo hi) (b, a, g))"
  shows "\<exists>w. a = w @ fst (snd st') \<and> st' = (rev w @ b, fst (snd st'), g)
            \<and> lo \<le> length w \<and> (\<forall>c \<in> set w. cmatch k c)"
proof -
  from assms obtain n where n: "lo \<le> n" "n \<le> run_length k hi a" and e: "st' = advance n (b, a, g)"
    by auto
  have "run_length k hi a \<le> length a"
    unfolding run_length_def
    by (cases hi) (auto intro: order_trans [OF length_takeWhile_le])
  with n have "length (take n a) = n" by simp
  moreover have "\<forall>c \<in> set (take n a). cmatch k c" using n(2) by (rule run_length_takeWhile)
  ultimately show ?thesis
    using e n(1) by (auto simp: advance_def intro!: exI [of _ "take n a"])
qed

subsection \<open>Searching and iterating\<close>

lemma match_at_Some:
  assumes "match_at r b a = Some m"
  shows "\<exists>w a' g. a = w @ a' \<and> (rev w @ b, a', g) \<in> set (rmatch r (b, a, []))
           \<and> m = \<lparr>m_start = length b, m_end = length b + length w, group0 = w, groups = g\<rparr>"
proof -
  from assms obtain st rest where l: "rmatch r (b, a, []) = st # rest"
    by (cases "rmatch r (b, a, [])") (auto simp: match_at_def)
  obtain b' a' g where st: "st = (b', a', g)" by (cases st)
  have "st \<in> set (rmatch r (b, a, []))" using l by simp
  from rmatch_extends [OF this] obtain w where w: "a = w @ a'" "b' = rev w @ b"
    using st by auto
  have "m = \<lparr>m_start = length b, m_end = length b', group0 = rev (take (length b' - length b) b'),
             groups = g\<rparr>"
    using assms l st by (simp add: match_at_def)
  then have "m = \<lparr>m_start = length b, m_end = length b + length w, group0 = w, groups = g\<rparr>"
    using w by simp
  moreover have "(rev w @ b, a', g) \<in> set (rmatch r (b, a, []))" using l st w by simp
  ultimately show ?thesis using w by blast
qed

lemma search_from_Some:
  assumes "search_from r b a = Some m"
  shows "\<exists>u v. a = u @ v \<and> match_at r (rev u @ b) v = Some m"
  using assms
proof (induction a arbitrary: b)
  case Nil
  then show ?case by simp
next
  case (Cons c cs)
  show ?case
  proof (cases "match_at r b (c # cs)")
    case (Some m')
    with Cons.prems have "match_at r (rev [] @ b) (c # cs) = Some m" by simp
    then show ?thesis by (metis append_Nil)
  next
    case None
    with Cons.prems have "search_from r (c # b) cs = Some m" by simp
    from Cons.IH [OF this] obtain u v where "cs = u @ v" "match_at r (rev u @ c # b) v = Some m"
      by blast
    then have "c # cs = (c # u) @ v \<and> match_at r (rev (c # u) @ b) v = Some m" by simp
    then show ?thesis by blast
  qed
qed

lemma finditer_from_mem:
  assumes "m \<in> set (finditer_from r b a)"
  shows "\<exists>u v. a = u @ v \<and> match_at r (rev u @ b) v = Some m"
  using assms
proof (induction r b a rule: finditer_from.induct)
  case (1 r b a)
  from "1.prems" obtain m0 where s: "search_from r b a = Some m0"
    by (cases "search_from r b a") (auto simp: finditer_from.simps [of r b a])
  let ?n = "(if m_start m0 < m_end m0 then m_end m0 else m_end m0 + 1) - length b"
  show ?case
  proof (cases "m = m0")
    case True
    with s show ?thesis by (simp add: search_from_Some)
  next
    case False
    with "1.prems" s have g: "0 < ?n \<and> ?n \<le> length a"
      and mem: "m \<in> set (finditer_from r (rev (take ?n a) @ b) (drop ?n a))"
      by (auto simp: finditer_from.simps [of r b a] Let_def split: if_splits)
    from "1.IH" [OF s refl g mem] obtain u v where
      uv: "drop ?n a = u @ v" "match_at r (rev u @ rev (take ?n a) @ b) v = Some m" by blast
    have "a = (take ?n a @ u) @ v" using uv(1) by (metis append.assoc append_take_drop_id)
    moreover have "match_at r (rev (take ?n a @ u) @ b) v = Some m" using uv(2) by simp
    ultimately show ?thesis by blast
  qed
qed

lemma finditer_from_span:
  assumes "m \<in> set (finditer_from r b a)"
  shows "length b \<le> m_start m \<and> m_start m \<le> m_end m"
proof -
  from finditer_from_mem [OF assms] obtain u v where "match_at r (rev u @ b) v = Some m" by blast
  from match_at_Some [OF this] show ?thesis by auto
qed

lemma search_from_span:
  assumes "search_from r b a = Some m"
  shows "length b \<le> m_start m \<and> m_start m \<le> m_end m"
proof -
  from search_from_Some [OF assms] obtain u v where "match_at r (rev u @ b) v = Some m" by blast
  from match_at_Some [OF this] show ?thesis by auto
qed

lemma finditer_from_disjoint: "disjoint_spans (finditer_from r b a)"
proof (induction r b a rule: finditer_from.induct)
  case (1 r b a)
  show ?case
  proof (cases "search_from r b a")
    case None
    then show ?thesis by (simp add: finditer_from.simps [of r b a] disjoint_spans_def)
  next
    case (Some m)
    let ?n = "(if m_start m < m_end m then m_end m else m_end m + 1) - length b"
    show ?thesis
    proof (cases "0 < ?n \<and> ?n \<le> length a")
      case False
      then have "finditer_from r b a = [m]"
        using Some by (auto simp: finditer_from.simps [of r b a] Let_def)
      then show ?thesis by (simp add: disjoint_spans_def)
    next
      case True
      let ?rest = "finditer_from r (rev (take ?n a) @ b) (drop ?n a)"
      have f: "finditer_from r b a = m # ?rest"
        using Some True by (simp add: finditer_from.simps [of r b a] Let_def)
      have ih: "disjoint_spans ?rest" using "1.IH" [OF Some refl True] .
      have sp: "length b \<le> m_start m \<and> m_start m \<le> m_end m"
        using Some by (rule search_from_span)
      have "\<forall>m' \<in> set ?rest. m_start m < m_start m' \<and> m_end m \<le> m_start m'"
      proof
        fix m' assume "m' \<in> set ?rest"
        from finditer_from_span [OF this] have "length (rev (take ?n a) @ b) \<le> m_start m'" by simp
        moreover have "length (rev (take ?n a) @ b) = ?n + length b" using True by simp
        ultimately show "m_start m < m_start m' \<and> m_end m \<le> m_start m'"
          using sp by (auto split: if_splits)
      qed
      with ih f show ?thesis by (simp add: disjoint_spans_def)
    qed
  qed
qed

subsection \<open>Characters of the date shapes\<close>

lemma digit_table:
  "\<forall>c \<in> set ''0123456789''. cmatch CDigit c \<and> \<not> cmatch (CChars ''-/.'') c \<and> is_word c
      \<and> to_lower c = c"
  by code_simp

lemma sep_table:
  "\<forall>c \<in> set ''-/.''. \<not> cmatch CDigit c \<and> cmatch (CChars ''-/.'') c \<and> \<not> is_word c
      \<and> \<not> is_digit c \<and> to_lower c = c"
  by code_simp

lemma digit_facts:
  assumes "is_digit c"
  shows "cmatch CDigit c" and "\<not> cmatch (CChars ''-/.'') c" and "is_word c"
proof -
  from assms have "c \<in> set ''0123456789''" by (simp only: is_digit_def)
  with digit_table show "cmatch CDigit c" and "\<not> cmatch (CChars ''-/.'') c" and "is_word c"
    by blast+
qed

lemma sep_facts:
  assumes "c \<in> set ''-/.''"
  shows "\<not> cmatch CDigit c" and "cmatch (CChars ''-/.'') c" and "\<not> is_word c" and "\<not> is_digit c"
  using assms sep_table by blast+

subsection \<open>Groups and literals of a pattern\<close>

lemma rmatch_no_groups:
  "ngroups r = 0 \<Longrightarrow> st' \<in> set (rmatch r st) \<Longrightarrow> snd (snd st') = snd (snd st)"
proof (induction r arbitrary: st st')
  case (Then r1 r2)
  then obtain st1 where "st1 \<in> set (rmatch r1 st)" "st' \<in> set (rmatch r2 st1)" by auto
  with Then show ?case by (metis add_is_0 ngroups.simps(2))
next
  case (Lit s)
  then show ?case by (cases st) (auto simp: advance_def split: if_splits)
next
  case (Rep k lo hi)
  then show ?case by (cases st) (auto simp: advance_def)
qed (auto split: if_splits)

lemma rmatch_fixed_groups:
  "fixed_groups r \<Longrightarrow> st' \<in> set (rmatch r st) \<Longrightarrow>
     length (snd (snd st')) = length (snd (snd st)) + ngroups r"
proof (induction r arbitrary: st st')
  case (Then r1 r2)
  then obtain st1 where "st1 \<in> set (rmatch r1 st)" "st' \<in> set (rmatch r2 st1)" by auto
  with Then show ?case by fastforce
next
  case (Grp r)
  then obtain st0 where s0: "st0 \<in> set (rmatch r st)" and e: "st' = close_group (length (fst st)) st0"
    by auto
  from Grp.prems(1) have z: "ngroups r = 0" by simp
  from rmatch_no_groups [OF z s0] e z show ?case
    by (cases st0) (simp add: close_group_def)
next
  case (Or r1 r2)
  then have z: "ngroups (Or r1 r2) = 0" by simp
  from rmatch_no_groups [OF z Or.prems(2)] z show ?case by simp
next
  case (Opt r)
  then have z: "ngroups (Opt r) = 0" by simp
  from rmatch_no_groups [OF z Opt.prems(2)] z show ?case by simp
next
  case (Lit s)
  then show ?case using rmatch_no_groups [of "Lit s"] by simp
next
  case (Rep k lo hi)
  then show ?case using rmatch_no_groups [of "Rep k lo hi"] by simp
qed (auto split: if_splits)

lemma cmatch_digit: "cmatch CDigit c \<Longrightarrow> is_digit c"
proof -
  assume "cmatch CDigit c"
  then have d: "is_digit (to_lower c)" by (simp add: cmatch_def)
  show "is_digit c"
  proof (cases "map_of (zip ascii_upper ascii_lower) c")
    case None
    with d show ?thesis by (simp add: to_lower_def)
  next
    case (Some l)
    then have "(c, l) \<in> set (zip ascii_upper ascii_lower)" by (rule map_of_SomeD)
    then have "l \<in> set ascii_lower" by (rule set_zip_rightD)
    moreover have "to_lower c = l" using Some by (simp add: to_lower_def)
    moreover have "\<forall>x \<in> set ascii_lower. \<not> is_digit x" by code_simp
    ultimately show ?thesis using d by auto
  qed
qed

lemma rmatch_digit_groups:
  "digit_groups r \<Longrightarrow> st' \<in> set (rmatch r st) \<Longrightarrow>
     \<exists>gs. snd (snd st') = snd (snd st) @ gs \<and> length gs = ngroups r \<and> (\<forall>g \<in> set gs. str_isdigit g)"
proof (induction r arbitrary: st st' rule: digit_groups.induct)
  case (1 lo hi)
  obtain b a g where st: "st = (b, a, g)" by (cases st)
  from "1.prems"(2) [unfolded st, THEN in_rmatch_Grp] obtain w g0 where
    m: "(rev w @ b, fst (snd st'), g0) \<in> set (rmatch (Rep CDigit lo hi) (b, a, g))"
    and e: "st' = (rev w @ b, fst (snd st'), g0 @ [w])" by blast
  from in_rmatch_Rep [OF m] obtain w' where
    w': "a = w' @ fst (snd st')" "rev w @ b = rev w' @ b" "g0 = g" "lo \<le> length w'"
        "\<forall>c \<in> set w'. cmatch CDigit c" by auto
  from w'(2) have "w = w'" by simp
  with w' "1.prems"(1) have "str_isdigit w"
    by (auto simp: str_isdigit_def dest: cmatch_digit)
  moreover have "snd (snd st') = g @ [w]" using e w'(3) by (metis snd_conv)
  ultimately show ?case by (simp add: st)
next
  case (3 r1 r2)
  from "3.prems" obtain st1 where s1: "st1 \<in> set (rmatch r1 st)" and s2: "st' \<in> set (rmatch r2 st1)"
    by auto
  from "3.prems"(1) have d: "digit_groups r1" "digit_groups r2" by simp_all
  from "3.IH"(1) [OF d(1) s1] obtain g1 where
    g1: "snd (snd st1) = snd (snd st) @ g1" "length g1 = ngroups r1" "\<forall>g \<in> set g1. str_isdigit g"
    by blast
  from "3.IH"(2) [OF d(2) s2] obtain g2 where
    g2: "snd (snd st') = snd (snd st1) @ g2" "length g2 = ngroups r2" "\<forall>g \<in> set g2. str_isdigit g"
    by blast
  have "snd (snd st') = snd (snd st) @ (g1 @ g2)" using g1(1) g2(1) by simp
  moreover have "length (g1 @ g2) = ngroups (Then r1 r2)" using g1(2) g2(2) by simp
  moreover have "\<forall>g \<in> set (g1 @ g2). str_isdigit g" using g1(3) g2(3) by auto
  ultimately show ?case by blast
next
  case (4 r1 r2)
  then have "ngroups (Or r1 r2) = 0" by simp
  from rmatch_no_groups [OF this "4.prems"(2)] show ?case using "4.prems"(1) by simp
next
  case (5 r)
  then have "ngroups (Opt r) = 0" by simp
  from rmatch_no_groups [OF this "5.prems"(2)] show ?case using "5.prems"(1) by simp
qed (auto simp: advance_def split: if_splits)

lemma rmatch_must_lit:
  "must_lit L r \<Longrightarrow> st' \<in> set (rmatch r st) \<Longrightarrow>
     \<exists>u v s. s \<in> set L \<and> fst (snd st) = u @ v \<and> lit_match s v"
proof (induction r arbitrary: st st')
  case (Lit s)
  then have "s \<in> set L" and "lit_match s (fst (snd st))" by (auto split: if_splits)
  then have "s \<in> set L \<and> fst (snd st) = [] @ fst (snd st) \<and> lit_match s (fst (snd st))" by simp
  then show ?case by blast
next
  case (Then r1 r2)
  then obtain st1 where s1: "st1 \<in> set (rmatch r1 st)" and s2: "st' \<in> set (rmatch r2 st1)"
    by auto
  show ?case
  proof (cases "must_lit L r1")
    case True
    from Then.IH(1) [OF True s1] show ?thesis .
  next
    case False
    with Then.prems(1) have "must_lit L r2" by simp
    from Then.IH(2) [OF this s2] obtain u v s where
      x: "s \<in> set L" "fst (snd st1) = u @ v" "lit_match s v" by blast
    from rmatch_extends [OF s1] obtain w where "fst (snd st) = w @ fst (snd st1)" by blast
    with x have "fst (snd st) = (w @ u) @ v" by simp
    with x show ?thesis by blast
  qed
next
  case (Or r1 r2)
  from Or.prems have m: "must_lit L r1" "must_lit L r2" by simp_all
  from Or.prems consider "st' \<in> set (rmatch r1 st)" | "st' \<in> set (rmatch r2 st)" by auto
  then show ?case
  proof cases
    case 1
    from Or.IH(1) [OF m(1) 1] show ?thesis .
  next
    case 2
    from Or.IH(2) [OF m(2) 2] show ?thesis .
  qed
next
  case (Grp r)
  then obtain st0 where s0: "st0 \<in> set (rmatch r st)" by auto
  from Grp.prems have "must_lit L r" by simp
  from Grp.IH [OF this s0] show ?case .
qed simp_all

lemma month_abbrevs_length: "\<forall>mon \<in> set month_abbrevs. length mon = 3"
  by (simp add: month_abbrevs_def)

lemma lit_match_append: "lit_match s a \<Longrightarrow> lit_match s (a @ x)"
  by (simp add: lit_match_def)

lemma has_month_iff:
  "has_month w \<longleftrightarrow> (\<exists>u v mon. w = u @ v \<and> mon \<in> set month_abbrevs \<and> lit_match mon v)"
proof (induction w)
  case Nil
  have "\<not> lit_match mon []" if "mon \<in> set month_abbrevs" for mon
    using that month_abbrevs_length by (auto simp: lit_match_def)
  then show ?case by auto
next
  case (Cons c cs)
  show ?case
  proof
    assume "has_month (c # cs)"
    then consider mon where "mon \<in> set month_abbrevs" "lit_match mon (c # cs)" | "has_month cs"
      by auto
    then show "\<exists>u v mon. c # cs = u @ v \<and> mon \<in> set month_abbrevs \<and> lit_match mon v"
    proof cases
      case 1
      then have "c # cs = [] @ (c # cs) \<and> mon \<in> set month_abbrevs \<and> lit_match mon (c # cs)"
        by simp
      then show ?thesis by blast
    next
      case 2
      with Cons.IH obtain u v mon where
        "cs = u @ v" "mon \<in> set month_abbrevs" "lit_match mon v" by blast
      then have "c # cs = (c # u) @ v \<and> mon \<in> set month_abbrevs \<and> lit_match mon v" by simp
      then show ?thesis by blast
    qed
  next
    assume "\<exists>u v mon. c # cs = u @ v \<and> mon \<in> set month_abbrevs \<and> lit_match mon v"
    then obtain u v mon where x: "c # cs = u @ v" "mon \<in> set month_abbrevs" "lit_match mon v"
      by blast
    show "has_month (c # cs)"
    proof (cases u)
      case Nil
      with x show ?thesis by auto
    next
      case (Cons c' u')
      with x have "cs = u' @ v" by simp
      with x Cons.IH have "has_month cs" by blast
      then show ?thesis by simp
    qed
  qed
qed

lemma has_month_sub: "has_month w \<Longrightarrow> has_month (u @ w @ x)"
proof -
  assume "has_month w"
  then obtain u' v mon where w: "w = u' @ v" "mon \<in> set month_abbrevs" "lit_match mon v"
    unfolding has_month_iff by blast
  then have "u @ w @ x = (u @ u') @ (v @ x)" "lit_match mon (v @ x)"
    by (simp_all add: lit_match_append)
  with w(2) show "has_month (u @ w @ x)" unfolding has_month_iff by blast
qed

lemma re_search_Some:
  assumes "re_search p s = Some m"
  shows "\<exists>u w x st'. s = u @ w @ x \<and> st' \<in> set (rmatch p (rev u, w @ x, []))
           \<and> group0 m = w \<and> groups m = snd (snd st')
           \<and> m_start m = length u \<and> m_end m = length u + length w"
proof -
  from assms have "search_from p [] s = Some m" by (simp add: re_search_def)
  from search_from_Some [OF this] obtain u v where uv: "s = u @ v" "match_at p (rev u) v = Some m"
    by auto
  from match_at_Some [OF uv(2)] obtain w a' g where
    "v = w @ a'" "(rev w @ rev u, a', g) \<in> set (rmatch p (rev u, v, []))"
    "m = \<lparr>m_start = length (rev u), m_end = length (rev u) + length w, group0 = w, groups = g\<rparr>"
    by blast
  with uv(1) show ?thesis by force
qed

lemma re_search_no_month:
  assumes "\<not> has_month s" and "must_lit month_abbrevs p"
  shows "re_search p s = None"
proof (rule ccontr)
  assume "re_search p s \<noteq> None"
  then obtain m where "re_search p s = Some m" by auto
  from re_search_Some [OF this] obtain u w x st' where
    s: "s = u @ w @ x" and st: "st' \<in> set (rmatch p (rev u, w @ x, []))" by blast
  from rmatch_must_lit [OF assms(2) st] obtain u2 v2 mon where
    "mon \<in> set month_abbrevs" "w @ x = u2 @ v2" "lit_match mon v2" by auto
  with s have "s = (u @ u2) @ v2 \<and> mon \<in> set month_abbrevs \<and> lit_match mon v2" by simp
  then have "has_month s" unfolding has_month_iff by blast
  with assms(1) show False by simp
qed

lemma re_search_digit_groups:
  assumes "digit_groups p" and "re_search p s = Some m"
  shows "length (groups m) = ngroups p \<and> (\<forall>g \<in> set (groups m). str_isdigit g)"
proof -
  from re_search_Some [OF assms(2)] obtain u w x st' where
    st: "st' \<in> set (rmatch p (rev u, w @ x, []))" and g: "groups m = snd (snd st')" by blast
  from rmatch_digit_groups [OF assms(1) st] g show ?thesis by auto
qed

lemma re_search_fixed_groups:
  assumes "fixed_groups p" and "re_search p s = Some m"
  shows "length (groups m) = ngroups p"
proof -
  from re_search_Some [OF assms(2)] obtain u w x st' where
    st: "st' \<in> set (rmatch p (rev u, w @ x, []))" and g: "groups m = snd (snd st')" by blast
  from rmatch_fixed_groups [OF assms(1) st] g show ?thesis by auto
qed

section \<open>Date extraction\<close>

lemma datetime_ctor_Inr:
  assumes "datetime_ctor y m v = Inr dt"
  shows "\<exists>d. v = PyInt d \<and> dt = midnight y m d \<and> valid_date y m d"
  using assms by (cases v) (auto simp: valid_date_def split: if_splits)

lemma parse_with_Some:
  assumes "parse_with ps s = Inr (Some dt)"
  shows "\<exists>y m d. dt = midnight y m d \<and> valid_date y m d \<and> 2020 \<le> y \<and> y \<le> 2035"
  using assms
proof (induction ps)
  case Nil
  then show ?case by simp
next
  case (Cons p ps)
  show ?case
  proof (cases "parse_with ps s = Inr (Some dt)")
    case True
    then show ?thesis by (rule Cons.IH)
  next
    case False
    with Cons.prems obtain y' mo v where c: "datetime_ctor y' mo v = Inr dt"
      and w: "2020 \<le> y'" "y' \<le> 2035"
      by (auto split: option.splits sum.splits prod.splits exn.splits if_splits)
    from datetime_ctor_Inr [OF c] w show ?thesis by blast
  qed
qed

lemma collect_matches_Inr:
  assumes "collect_matches ms acc = Inr cs"
  shows "cs = acc @ List.map_filter accepted ms"
  using assms
proof (induction ms arbitrary: acc)
  case Nil
  then show ?case by (simp add: List.map_filter_simps)
next
  case (Cons m ms)
  show ?case
  proof (cases "parse_date (group0 m)")
    case (Inl e)
    with Cons.prems show ?thesis by simp
  next
    case (Inr r)
    show ?thesis
    proof (cases r)
      case None
      with Inr Cons.prems have "collect_matches ms acc = Inr cs" by simp
      from Cons.IH [OF this] show ?thesis
        using Inr None by (simp add: List.map_filter_simps accepted_def)
    next
      case (Some dt)
      with Inr Cons.prems have
        "collect_matches ms (acc @ [\<lparr>date = dt, raw = group0 m, confidence = 0.85\<rparr>]) = Inr cs"
        by simp
      from Cons.IH [OF this] show ?thesis
        using Inr Some by (simp add: List.map_filter_simps accepted_def)
    qed
  qed
qed

lemma collect_matches_total:
  assumes "\<forall>m \<in> set ms. \<forall>e. parse_date (group0 m) \<noteq> Inl e"
  shows "collect_matches ms acc = Inr (acc @ List.map_filter accepted ms)"
  using assms
proof (induction ms arbitrary: acc)
  case Nil
  then show ?case by (simp add: List.map_filter_simps)
next
  case (Cons m ms)
  then have ih: "\<And>acc. collect_matches ms acc = Inr (acc @ List.map_filter accepted ms)" by simp
  from Cons.prems obtain r where r: "parse_date (group0 m) = Inr r"
    by (cases "parse_date (group0 m)") auto
  have am: "accepted m = (case r of None \<Rightarrow> None
              | Some dt \<Rightarrow> Some \<lparr>date = dt, raw = group0 m, confidence = 0.85\<rparr>)"
    by (simp add: accepted_def r split: option.splits)
  show ?case
    by (cases r) (simp_all add: r ih List.map_filter_simps am)
qed

lemma collect_patterns_Inr:
  assumes "collect_patterns ps s acc = Inr cs"
  shows "cs = acc @ concat (map (\<lambda>p. List.map_filter accepted (re_finditer p s)) ps)"
  using assms
proof (induction ps arbitrary: acc)
  case Nil
  then show ?case by simp
next
  case (Cons p ps)
  from Cons.prems obtain acc' where a: "collect_matches (re_finditer p s) acc = Inr acc'"
    and b: "collect_patterns ps s acc' = Inr cs"
    by (auto split: sum.splits)
  from collect_matches_Inr [OF a] Cons.IH [OF b] show ?case by simp
qed

lemma collect_patterns_total:
  assumes "\<forall>p \<in> set ps. \<forall>m \<in> set (re_finditer p s). \<forall>e. parse_date (group0 m) \<noteq> Inl e"
  shows "collect_patterns ps s acc
           = Inr (acc @ concat (map (\<lambda>p. List.map_filter accepted (re_finditer p s)) ps))"
  using assms
proof (induction ps arbitrary: acc)
  case Nil
  then show ?case by simp
next
  case (Cons p ps)
  have "collect_matches (re_finditer p s) acc
          = Inr (acc @ List.map_filter accepted (re_finditer p s))"
    using Cons.prems by (intro collect_matches_total) simp
  moreover have "\<And>acc. collect_patterns ps s acc
           = Inr (acc @ concat (map (\<lambda>p. List.map_filter accepted (re_finditer p s)) ps))"
    using Cons.prems by (intro Cons.IH) simp
  ultimately show ?case by simp
qed

lemma set_map_filter: "set (List.map_filter f xs) = {y. \<exists>x \<in> set xs. f x = Some y}"
  by (induction xs) (auto simp: List.map_filter_simps split: option.splits)

lemma accepted_Some:
  assumes "accepted m = Some c"
  shows "parse_date (group0 m) = Inr (Some (date c)) \<and> raw c = group0 m \<and> confidence c = 0.85"
  using assms by (auto simp: accepted_def split: sum.splits option.splits)

lemma interpret_groups_other: "length gs \<noteq> 3 \<Longrightarrow> interpret_groups gs = Inr None"
  by (auto simp: interpret_groups_def split: list.splits)

lemma interpret_groups_digits:
  assumes "str_isdigit g0" "str_isdigit g1" "str_isdigit g2"
  shows "interpret_groups [g0, g1, g2] =
           Inr (Some (if 1 \<le> py_int g0 \<and> py_int g0 \<le> 31 \<and> 1 \<le> py_int g1 \<and> py_int g1 \<le> 12
                      then (PyInt (py_int g0), py_int g1, PyInt (py_int g2))
                      else (PyInt (py_int g1), py_int g0, PyInt (py_int g2))))"
  using assms by (simp add: interpret_groups_def)

lemma list3: "length gs = 3 \<Longrightarrow> \<exists>g0 g1 g2. gs = [g0, g1, g2]"
  by (auto simp: length_Suc_conv numeral_3_eq_3)

lemma parse_with_Cons_safe:
  assumes rest: "\<forall>e. parse_with ps s \<noteq> Inl e"
    and grp: "\<And>m. re_search p s = Some m \<Longrightarrow>
                length (groups m) \<noteq> 3 \<or> (\<forall>g \<in> set (groups m). str_isdigit g)"
  shows "\<forall>e. parse_with (p # ps) s \<noteq> Inl e"
proof (cases "re_search p s")
  case None
  with rest show ?thesis by simp
next
  case (Some m)
  show ?thesis
  proof (cases "length (groups m) = 3")
    case False
    then have "interpret_groups (groups m) = Inr None" by (rule interpret_groups_other)
    with Some rest show ?thesis by simp
  next
    case True
    then obtain g0 g1 g2 where g: "groups m = [g0, g1, g2]" using list3 by blast
    with grp [OF Some] True have d: "str_isdigit g0" "str_isdigit g1" "str_isdigit g2" by auto
    show ?thesis
      using Some rest
      by (auto simp: g interpret_groups_digits [OF d] split: sum.splits exn.splits if_splits)
  qed
qed

lemmas pat_defs = pat_numeric_def pat_iso_def pat_dotted_def pat_day_month_def pat_month_day_def
  pat_keyword_def pat_keyword_iso_def label_keywords_def d12_def d24_def d4_def sep_def dot_def opt_dot_def
  spaces_def letters_def ordinal_def month_names_def

lemma pattern_groups:
  "digit_groups pat_numeric" "ngroups pat_numeric = 3"
  "digit_groups pat_iso" "ngroups pat_iso = 3"
  "digit_groups pat_dotted" "ngroups pat_dotted = 3"
  "fixed_groups pat_keyword" "ngroups pat_keyword = 1"
  "fixed_groups pat_keyword_iso" "ngroups pat_keyword_iso = 1"
  by (simp_all add: pat_defs)

lemma pattern_months:
  "must_lit month_abbrevs pat_day_month" "must_lit month_abbrevs pat_month_day"
  by (simp_all add: pat_defs month_abbrevs_def)

lemma parse_date_safe:
  assumes "\<not> has_month s"
  shows "\<forall>e. parse_date s \<noteq> Inl e"
proof -
  have p7: "\<forall>e. parse_with [pat_keyword_iso] s \<noteq> Inl e"
    using re_search_fixed_groups [OF pattern_groups(9), of s]
    by (intro parse_with_Cons_safe) (simp_all add: pattern_groups)
  have p6: "\<forall>e. parse_with [pat_keyword, pat_keyword_iso] s \<noteq> Inl e"
    using re_search_fixed_groups [OF pattern_groups(7), of s]
    by (intro parse_with_Cons_safe p7) (simp_all add: pattern_groups)
  have p5: "\<forall>e. parse_with [pat_month_day, pat_keyword, pat_keyword_iso] s \<noteq> Inl e"
    using re_search_no_month [OF assms pattern_months(2)]
    by (intro parse_with_Cons_safe p6) simp_all
  have p4: "\<forall>e. parse_with [pat_day_month, pat_month_day, pat_keyword, pat_keyword_iso] s \<noteq> Inl e"
    using re_search_no_month [OF assms pattern_months(1)]
    by (intro parse_with_Cons_safe p5) simp_all
  have p3: "\<forall>e. parse_with [pat_dotted, pat_day_month, pat_month_day, pat_keyword,
                              pat_keyword_iso] s \<noteq> Inl e"
    using re_search_digit_groups [OF pattern_groups(5), of s]
    by (intro parse_with_Cons_safe p4) simp_all
  have p2: "\<forall>e. parse_with [pat_iso, pat_dotted, pat_day_month, pat_month_day, pat_keyword,
                              pat_keyword_iso] s \<noteq> Inl e"
    using re_search_digit_groups [OF pattern_groups(3), of s]
    by (intro parse_with_Cons_safe p3) simp_all
  have p1: "\<forall>e. parse_with [pat_numeric, pat_iso, pat_dotted, pat_day_month, pat_month_day,
                              pat_keyword, pat_keyword_iso] s \<noteq> Inl e"
    using re_search_digit_groups [OF pattern_groups(1), of s]
    by (intro parse_with_Cons_safe p2) simp_all
  then show ?thesis by (simp add: parse_date_def DATE_PATTERNS_def)
qed

lemma re_finditer_sub:
  assumes "m \<in> set (re_finditer p s)"
  shows "\<exists>u x. s = u @ group0 m @ x"
proof -
  from assms have "m \<in> set (finditer_from p [] s)" by (simp add: re_finditer_def)
  from finditer_from_mem [OF this] obtain u v where uv: "s = u @ v" "match_at p (rev u) v = Some m"
    by auto
  from match_at_Some [OF uv(2)] obtain w a' where "v = w @ a'" "group0 m = w" by force
  with uv(1) show ?thesis by blast
qed

lemma extract_potential_dates_total:
  assumes "\<not> has_month s"
  shows "extract_potential_dates s
           = Inr (concat (map (\<lambda>p. List.map_filter accepted (re_finditer p s)) DATE_PATTERNS))"
proof -
  have "\<forall>p \<in> set DATE_PATTERNS. \<forall>m \<in> set (re_finditer p s). \<forall>e. parse_date (group0 m) \<noteq> Inl e"
  proof (intro ballI)
    fix p m assume "m \<in> set (re_finditer p s)"
    from re_finditer_sub [OF this] obtain u x where "s = u @ group0 m @ x" by blast
    with assms has_month_sub [of "group0 m" u x] have "\<not> has_month (group0 m)" by auto
    then show "\<forall>e. parse_date (group0 m) \<noteq> Inl e" by (rule parse_date_safe)
  qed
  from collect_patterns_total [OF this, of "[]"] show ?thesis
    by (simp add: extract_potential_dates_def)
qed

text \<open>
  Claim C2. Every candidate that \<open>extract_potential_dates\<close> returns carries a valid
  calendar date, at midnight, whose year lies in 2020..2035; so no candidate carries a
  date whose year is outside that window. (When the function raises instead, it returns
  no candidate at all.)
\<close>

theorem extract_potential_dates_plausible:
  assumes "extract_potential_dates s = Inr cs" and "c \<in> set cs"
  shows "(\<exists>y m d. date c = midnight y m d \<and> valid_date y m d \<and> 2020 \<le> y \<and> y \<le> 2035)
       \<and> (\<forall>y m d. y < 2020 \<or> 2035 < y \<longrightarrow> date c \<noteq> midnight y m d)"
proof -
  from collect_patterns_Inr [of DATE_PATTERNS s "[]" cs] assms(1)
  have "cs = concat (map (\<lambda>p. List.map_filter accepted (re_finditer p s)) DATE_PATTERNS)"
    by (simp add: extract_potential_dates_def)
  with assms(2) obtain p m where "accepted m = Some c"
    by (auto simp: set_map_filter)
  then have "parse_with DATE_PATTERNS (group0 m) = Inr (Some (date c))"
    using accepted_Some by (simp add: parse_date_def)
  from parse_with_Some [OF this] obtain y mo d where
    d: "date c = midnight y mo d" and v: "valid_date y mo d" and w: "2020 \<le> y" "y \<le> 2035"
    by blast
  have "\<forall>y' m' d'. y' < 2020 \<or> 2035 < y' \<longrightarrow> date c \<noteq> midnight y' m' d'"
    using d w by (auto simp: midnight_def)
  with d v w show ?thesis by blast
qed

theorem extract_potential_dates_plausible_witness:
  "(\<exists>y m d. midnight 2026 11 5 = midnight y m d \<and> valid_date y m d \<and> 2020 \<le> y \<and> y \<le> 2035)
   \<and> extract_potential_dates ''MFG 12-01-2019'' = Inr []"
proof -
  have h: "extract_potential_dates ''05/11/2026''
     = Inr [\<lparr>date = midnight 2026 11 5, raw = ''05/11/2026'', confidence = 0.85\<rparr>]" by code_simp
  have e: "extract_potential_dates ''MFG 12-01-2019'' = Inr []" by code_simp
  from extract_potential_dates_plausible [OF h,
      of "\<lparr>date = midnight 2026 11 5, raw = ''05/11/2026'', confidence = 0.85\<rparr>"] e
  show ?thesis by simp
qed

text \<open>
  Claim C5. Whenever \<open>parse_date\<close> finds a match of the first pattern, its three groups
  \<open>a\<close>, \<open>b\<close>, \<open>c\<close> are numbers and are read as day \<open>a\<close>, month \<open>b\<close>, year \<open>c\<close> if
  \<open>1 \<le> a \<le> 31\<close> and \<open>1 \<le> b \<le> 12\<close>, and as day \<open>b\<close>, month \<open>a\<close>, year \<open>c\<close> otherwise.
  On "13-05-2026" the extraction yields day 13, month 5; on "05-03-2026" day 5, month 3.
\<close>

theorem numeric_order_resolution:
  "(re_search pat_numeric s = Some m \<longrightarrow>
      (\<exists>g0 g1 g2. groups m = [g0, g1, g2]
         \<and> str_isdigit g0 \<and> str_isdigit g1 \<and> str_isdigit g2
         \<and> interpret_groups (groups m) =
             Inr (Some (if 1 \<le> py_int g0 \<and> py_int g0 \<le> 31 \<and> 1 \<le> py_int g1 \<and> py_int g1 \<le> 12
                        then (PyInt (py_int g0), py_int g1, PyInt (py_int g2))
                        else (PyInt (py_int g1), py_int g0, PyInt (py_int g2))))))
   \<and> extract_potential_dates ''13-05-2026''
       = Inr [\<lparr>date = midnight 2026 5 13, raw = ''13-05-2026'', confidence = 0.85\<rparr>]
   \<and> extract_potential_dates ''05-03-2026''
       = Inr [\<lparr>date = midnight 2026 3 5, raw = ''05-03-2026'', confidence = 0.85\<rparr>]"
proof -
  have a: "\<exists>g0 g1 g2. groups m = [g0, g1, g2]
         \<and> str_isdigit g0 \<and> str_isdigit g1 \<and> str_isdigit g2
         \<and> interpret_groups (groups m) =
             Inr (Some (if 1 \<le> py_int g0 \<and> py_int g0 \<le> 31 \<and> 1 \<le> py_int g1 \<and> py_int g1 \<le> 12
                        then (PyInt (py_int g0), py_int g1, PyInt (py_int g2))
                        else (PyInt (py_int g1), py_int g0, PyInt (py_int g2))))"
    if "re_search pat_numeric s = Some m"
  proof -
    from re_search_digit_groups [OF pattern_groups(1) that]
    have l: "length (groups m) = 3" and d: "\<forall>g \<in> set (groups m). str_isdigit g"
      by (simp_all add: pattern_groups)
    from list3 [OF l] obtain g0 g1 g2 where g: "groups m = [g0, g1, g2]" by blast
    with d have dd: "str_isdigit g0" "str_isdigit g1" "str_isdigit g2" by simp_all
    from interpret_groups_digits [OF dd] g dd show ?thesis by simp
  qed
  have b: "extract_potential_dates ''13-05-2026''
       = Inr [\<lparr>date = midnight 2026 5 13, raw = ''13-05-2026'', confidence = 0.85\<rparr>]"
    by code_simp
  have c: "extract_potential_dates ''05-03-2026''
       = Inr [\<lparr>date = midnight 2026 3 5, raw = ''05-03-2026'', confidence = 0.85\<rparr>]"
    by code_simp
  from a b c show ?thesis by blast
qed

theorem numeric_order_resolution_witness:
  "re_search pat_numeric ''05-13-2026''
     = Some \<lparr>m_start = 0, m_end = 10, group0 = ''05-13-2026'', groups = [''05'', ''13'', ''2026'']\<rparr>
   \<and> interpret_groups [''05'', ''13'', ''2026''] = Inr (Some (PyInt 13, 5, PyInt 2026))"
proof -
  have h: "re_search pat_numeric ''05-13-2026''
     = Some \<lparr>m_start = 0, m_end = 10, group0 = ''05-13-2026'', groups = [''05'', ''13'', ''2026'']\<rparr>"
    by code_simp
  have p: "py_int ''05'' = 5" "py_int ''13'' = 13" "py_int ''2026'' = 2026" by code_simp+
  from numeric_order_resolution [of "''05-13-2026''"
      "\<lparr>m_start = 0, m_end = 10, group0 = ''05-13-2026'', groups = [''05'', ''13'', ''2026'']\<rparr>"] h p
  show ?thesis by simp
qed

text \<open>
  Claim C10, as amended. \<open>extract_potential_dates\<close> returns a list: pattern by pattern
  in the order of \<open>DATE_PATTERNS\<close>, and for each pattern occurrence by occurrence from
  left to right, one candidate for every occurrence that \<open>parse_date\<close> accepts. The
  occurrences of one pattern do not overlap and start at strictly increasing positions.
  Nothing removes duplicates, so equal candidates appear when the same text is matched by
  two patterns, or occurs twice.
\<close>

theorem extract_potential_dates_occurrences:
  assumes "extract_potential_dates s = Inr cs"
  shows "cs = concat (map (\<lambda>p. List.map_filter accepted (re_finditer p s)) DATE_PATTERNS)
       \<and> (\<forall>p \<in> set DATE_PATTERNS. disjoint_spans (re_finditer p s))"
proof -
  from collect_patterns_Inr [of DATE_PATTERNS s "[]" cs] assms
  have "cs = concat (map (\<lambda>p. List.map_filter accepted (re_finditer p s)) DATE_PATTERNS)"
    by (simp add: extract_potential_dates_def)
  moreover have "\<forall>p \<in> set DATE_PATTERNS. disjoint_spans (re_finditer p s)"
    by (simp add: re_finditer_def finditer_from_disjoint)
  ultimately show ?thesis by blast
qed

theorem extract_potential_dates_occurrences_witness:
  "concat (map (\<lambda>p. List.map_filter accepted (re_finditer p ''05.11.2026'')) DATE_PATTERNS)
     = [\<lparr>date = midnight 2026 11 5, raw = ''05.11.2026'', confidence = 0.85\<rparr>,
        \<lparr>date = midnight 2026 11 5, raw = ''05.11.2026'', confidence = 0.85\<rparr>]
   \<and> disjoint_spans (re_finditer pat_dotted ''05.11.2026'')"
proof -
  have h: "extract_potential_dates ''05.11.2026''
     = Inr [\<lparr>date = midnight 2026 11 5, raw = ''05.11.2026'', confidence = 0.85\<rparr>,
            \<lparr>date = midnight 2026 11 5, raw = ''05.11.2026'', confidence = 0.85\<rparr>]"
    by code_simp
  have m: "pat_dotted \<in> set DATE_PATTERNS" by (simp add: DATE_PATTERNS_def)
  note t = extract_potential_dates_occurrences [OF h]
  have a: "concat (map (\<lambda>p. List.map_filter accepted (re_finditer p ''05.11.2026'')) DATE_PATTERNS)
     = [\<lparr>date = midnight 2026 11 5, raw = ''05.11.2026'', confidence = 0.85\<rparr>,
        \<lparr>date = midnight 2026 11 5, raw = ''05.11.2026'', confidence = 0.85\<rparr>]"
    using t [THEN conjunct1] by (rule sym)
  have b: "disjoint_spans (re_finditer pat_dotted ''05.11.2026'')"
    using t [THEN conjunct2] m by (rule bspec)
  from a b show ?thesis by (rule conjI)
qed

text \<open>
  Claim C10, as stated, fails: a dotted date is matched by the first and by the third
  pattern, which gives two identical candidates.
\<close>

theorem extract_potential_dates_occurrences_counterexample:
  "extract_potential_dates ''05.11.2026''
     = Inr [\<lparr>date = midnight 2026 11 5, raw = ''05.11.2026'', confidence = 0.85\<rparr>,
            \<lparr>date = midnight 2026 11 5, raw = ''05.11.2026'', confidence = 0.85\<rparr>]"
  by code_simp

subsection \<open>Numeric dates in their printed forms\<close>

lemma digit_char_table:
  "\<forall>k \<in> set [0..<10]. is_digit (''0123456789'' ! k) \<and> digit_val (''0123456789'' ! k) = int k"
  by code_simp

lemma digit_char_facts: "is_digit (digit_char n)" "digit_val (digit_char n) = int (n mod 10)"
proof -
  have "n mod 10 \<in> set [0..<10]" by simp
  with digit_char_table show "is_digit (digit_char n)" "digit_val (digit_char n) = int (n mod 10)"
    unfolding digit_char_def by blast+
qed

lemma py_int_snoc: "py_int (xs @ [c]) = py_int xs * 10 + digit_val c"
  by (simp add: py_int_def)

lemma zero_pad_digits: "\<forall>c \<in> set (zero_pad w n). is_digit c"
  by (induction w arbitrary: n) (auto simp: digit_char_facts)

lemma zero_pad_length: "length (zero_pad w n) = w"
  by (induction w arbitrary: n) auto

lemma zero_pad_value: "n < 10 ^ w \<Longrightarrow> py_int (zero_pad w n) = int n"
proof (induction w arbitrary: n)
  case 0
  then show ?case by (simp add: py_int_def)
next
  case (Suc w)
  then have "n div 10 < 10 ^ w" by (simp add: less_mult_imp_div_less mult.commute)
  from Suc.IH [OF this] have "py_int (zero_pad (Suc w) n) = int (n div 10) * 10 + int (n mod 10)"
    by (simp add: py_int_snoc digit_char_facts)
  also have "\<dots> = int (n div 10 * 10 + n mod 10)" by (simp only: of_nat_add of_nat_mult of_nat_numeral)
  also have "n div 10 * 10 + n mod 10 = n" by simp
  finally show ?case .
qed

lemma show_nat_small:
  assumes "n < 100"
  shows "show_nat n = (if n < 10 then [digit_char n] else [digit_char (n div 10), digit_char n])"
proof -
  from assms have "n div 10 < 10" by simp
  then show ?thesis
    by (simp add: show_nat.simps [of n] show_nat.simps [of "n div 10"])
qed

lemma field_renderings_facts:
  assumes "X \<in> set (field_renderings n)" and "n < 100"
  shows "str_isdigit X \<and> length X \<le> 2 \<and> py_int X = int n"
proof -
  from assms(1) consider "X = show_nat n" | "X = zero_pad 2 n"
    by (auto simp: field_renderings_def)
  then show ?thesis
  proof cases
    case 1
    show ?thesis
    proof (cases "n < 10")
      case True
      with 1 assms(2) show ?thesis
        by (simp add: show_nat_small str_isdigit_def digit_char_facts py_int_def)
    next
      case False
      with assms(2) have "n div 10 < 10" by simp
      then have "int (n div 10 mod 10) * 10 + int (n mod 10) = int (n div 10 * 10 + n mod 10)"
        by (simp only: mod_less of_nat_add of_nat_mult of_nat_numeral)
      also have "n div 10 * 10 + n mod 10 = n" by simp
      finally have v: "int (n div 10 mod 10) * 10 + int (n mod 10) = int n" .
      with \<open>n div 10 < 10\<close> have v': "int (n div 10) * 10 + int (n mod 10) = int n" by simp
      from 1 False assms(2) show ?thesis
        by (simp add: show_nat_small str_isdigit_def digit_char_facts py_int_def v v')
    qed
  next
    case 2
    have "zero_pad 2 n \<noteq> []" using zero_pad_length [of 2 n] by auto
    with 2 assms(2) zero_pad_digits [of 2 n] zero_pad_length [of 2 n] zero_pad_value [of n 2]
    show ?thesis by (simp add: str_isdigit_def)
  qed
qed

lemma year_renderings_facts:
  assumes "Y \<in> set (year_renderings y)" and "2020 \<le> y" and "y \<le> 2035"
  shows "str_isdigit Y \<and> (length Y = 2 \<or> length Y = 4) \<and> fix_year (PyInt (py_int Y)) = Inr (int y)"
proof -
  from assms(1) consider "Y = zero_pad 4 y" | "Y = zero_pad 2 (y mod 100)"
    by (auto simp: year_renderings_def)
  then show ?thesis
  proof cases
    case 1
    have "zero_pad 4 y \<noteq> []" using zero_pad_length [of 4 y] by auto
    moreover have "py_int (zero_pad 4 y) = int y" using assms(3) by (intro zero_pad_value) simp
    ultimately show ?thesis
      using 1 assms(2) zero_pad_digits [of 4 y] zero_pad_length [of 4 y]
      by (simp add: str_isdigit_def)
  next
    case 2
    have ne: "zero_pad 2 (y mod 100) \<noteq> []" using zero_pad_length [of 2 "y mod 100"] by auto
    have v: "py_int (zero_pad 2 (y mod 100)) = int (y mod 100)" by (intro zero_pad_value) simp
    obtain k where k: "y = k + 20 * 100" "k < 100"
      using assms(2,3) by (intro that [of "y - 2000"]) simp_all
    have "(k + 20 * 100) mod 100 = k mod 100" by (rule mod_mult_self1)
    with k have "y mod 100 = k" by simp
    with k have "int (y mod 100) = int y - 2000" by simp
    with v assms(2,3) have "fix_year (PyInt (py_int (zero_pad 2 (y mod 100)))) = Inr (int y)"
      by simp
    with 2 ne zero_pad_digits [of 2 "y mod 100"] zero_pad_length [of 2 "y mod 100"]
    show ?thesis by (simp add: str_isdigit_def)
  qed
qed

lemma digits12:
  assumes "str_isdigit D" and "length D \<le> 2"
  shows "(\<exists>d1. D = [d1] \<and> is_digit d1) \<or> (\<exists>d1 d2. D = [d1, d2] \<and> is_digit d1 \<and> is_digit d2)"
proof -
  from assms(1) obtain d1 D' where D: "D = d1 # D'" by (cases D) (auto simp: str_isdigit_def)
  show ?thesis
  proof (cases D')
    case Nil
    with D assms(1) show ?thesis by (simp add: str_isdigit_def)
  next
    case (Cons d2 D'')
    with D assms(2) have "D'' = []" by simp
    with D Cons assms(1) show ?thesis by (simp add: str_isdigit_def)
  qed
qed

lemma digits24:
  assumes "str_isdigit Y" and "length Y = 2 \<or> length Y = 4"
  shows "(\<exists>y1 y2. Y = [y1, y2] \<and> is_digit y1 \<and> is_digit y2)
       \<or> (\<exists>y1 y2 y3 y4. Y = [y1, y2, y3, y4] \<and> is_digit y1 \<and> is_digit y2 \<and> is_digit y3 \<and> is_digit y4)"
  using assms
  by (auto simp: str_isdigit_def length_Suc_conv numeral_2_eq_2 numeral_eq_Suc)

lemma nonword_not_digit: "\<not> is_word c \<Longrightarrow> \<not> cmatch CDigit c"
  using cmatch_digit [of c] digit_facts(3) [of c] by blast

lemma match_at_numeric:
  assumes D: "str_isdigit D" "length D \<le> 2" and M: "str_isdigit M" "length M \<le> 2"
    and Y: "str_isdigit Y" "length Y = 2 \<or> length Y = 4"
    and s: "s1 \<in> set ''-/.''" "s2 \<in> set ''-/.''"
    and bw: "(case b of [] \<Rightarrow> False | c # x \<Rightarrow> is_word c) = False"
    and pw: "post = [] \<or> \<not> is_word (hd post)"
  shows "match_at pat_numeric b (D @ s1 # M @ s2 # Y @ post) =
     Some \<lparr>m_start = length b, m_end = length b + length (D @ s1 # M @ s2 # Y),
            group0 = D @ s1 # M @ s2 # Y, groups = [D, M, Y]\<rparr>"
proof (cases post)
  case Nil
  show ?thesis
    unfolding Nil
    using digits12 [OF D] digits12 [OF M] digits24 [OF Y]
      s [THEN sep_facts(1)] s [THEN sep_facts(2)] s [THEN sep_facts(3)] bw
    by (elim disjE exE conjE)
       (simp_all add: digit_facts match_at_def pat_numeric_def d12_def d24_def sep_def run_length_def
          advance_def close_group_def at_boundary_def)
next
  case (Cons p0 ps)
  with pw have w: "\<not> is_word p0" by simp
  then have nd: "\<not> cmatch CDigit p0" by (rule nonword_not_digit)
  show ?thesis
    unfolding Cons
    using digits12 [OF D] digits12 [OF M] digits24 [OF Y]
      s [THEN sep_facts(1)] s [THEN sep_facts(2)] s [THEN sep_facts(3)] bw w nd
    by (elim disjE exE conjE)
       (simp_all add: digit_facts match_at_def pat_numeric_def d12_def d24_def sep_def run_length_def
          advance_def close_group_def at_boundary_def)
qed

lemma search_from_hit: "match_at r b a = Some m \<Longrightarrow> search_from r b a = Some m"
  by (cases a) simp_all

lemma match_at_numeric_nondigit:
  assumes "\<not> is_digit c"
  shows "match_at pat_numeric b (c # xs) = None"
proof -
  from assms have "\<not> cmatch CDigit c" using cmatch_digit by blast
  then show ?thesis
    by (simp add: match_at_def pat_numeric_def d12_def run_length_def)
qed

lemma parse_date_numeric:
  assumes D: "str_isdigit D" "length D \<le> 2" and M: "str_isdigit M" "length M \<le> 2"
    and Y: "str_isdigit Y" "length Y = 2 \<or> length Y = 4"
    and s: "s1 \<in> set ''-/.''" "s2 \<in> set ''-/.''"
    and r: "(dy, mo) = (if 1 \<le> py_int D \<and> py_int D \<le> 31 \<and> 1 \<le> py_int M \<and> py_int M \<le> 12
                         then (py_int D, py_int M) else (py_int M, py_int D))"
    and y: "fix_year (PyInt (py_int Y)) = Inr y"
    and v: "valid_date y mo dy" "2020 \<le> y" "y \<le> 2035"
  shows "parse_date (D @ s1 # M @ s2 # Y) = Inr (Some (midnight y mo dy))"
proof -
  let ?R = "D @ s1 # M @ s2 # Y"
  have "match_at pat_numeric [] ?R =
     Some \<lparr>m_start = length ([]::string), m_end = length ([]::string) + length ?R,
            group0 = ?R, groups = [D, M, Y]\<rparr>"
    using match_at_numeric [OF D M Y s, of "[]" "[]"] by simp
  then have se: "re_search pat_numeric ?R =
     Some \<lparr>m_start = length ([]::string), m_end = length ([]::string) + length ?R,
            group0 = ?R, groups = [D, M, Y]\<rparr>"
    unfolding re_search_def by (rule search_from_hit)
  have ig: "interpret_groups [D, M, Y] =
      Inr (Some (if 1 \<le> py_int D \<and> py_int D \<le> 31 \<and> 1 \<le> py_int M \<and> py_int M \<le> 12
                 then (PyInt (py_int D), py_int M, PyInt (py_int Y))
                 else (PyInt (py_int M), py_int D, PyInt (py_int Y))))"
    by (rule interpret_groups_digits [OF D(1) M(1) Y(1)])
  have ig': "interpret_groups [D, M, Y] = Inr (Some (PyInt dy, mo, PyInt (py_int Y)))"
    using r unfolding ig by (auto split: if_splits)
  have dc: "datetime_ctor y mo (PyInt dy) = Inr (midnight y mo dy)"
    using v(1) by (simp add: valid_date_def)
  show ?thesis
    unfolding parse_date_def DATE_PATTERNS_def
    by (simp add: se ig' y dc v del: fix_year.simps datetime_ctor.simps)
qed

subsection \<open>What the matches of a pattern consume\<close>

lemma rmatch_consumes:
  "consumes Q r \<Longrightarrow> st' \<in> set (rmatch r st) \<Longrightarrow>
     \<exists>w. fst (snd st) = w @ fst (snd st') \<and> fst st' = rev w @ fst st
        \<and> min_len r \<le> length w \<and> (\<forall>c \<in> set w. Q (to_lower c))"
proof (induction r arbitrary: st st')
  case Eps
  then show ?case by simp
next
  case (Lit s)
  obtain b a g where st: "st = (b, a, g)" by (cases st)
  from Lit.prems(2) have lm: "lit_match s a" and e: "st' = advance (length s) (b, a, g)"
    by (auto simp: st split: if_splits)
  let ?w = "take (length s) a"
  from lm have len: "length ?w = length s" and low: "str_lower ?w = str_lower s"
    by (simp_all add: lit_match_def)
  have "\<forall>c \<in> set ?w. Q (to_lower c)"
  proof
    fix c assume "c \<in> set ?w"
    then have "to_lower c \<in> set (str_lower ?w)" by (simp add: str_lower_def)
    then have "to_lower c \<in> set (str_lower s)" by (simp only: low)
    then obtain c' where "c' \<in> set s" "to_lower c = to_lower c'" by (auto simp: str_lower_def)
    with Lit.prems(1) show "Q (to_lower c)" by simp
  qed
  moreover have "fst (snd st) = ?w @ fst (snd st')" "fst st' = rev ?w @ fst st"
    using e st by (simp_all add: advance_def)
  ultimately show ?case using len by (metis min_len.simps(1) order_refl)
next
  case (Rep k lo hi)
  obtain b a g where st: "st = (b, a, g)" by (cases st)
  from in_rmatch_Rep [OF Rep.prems(2) [unfolded st]] obtain w where
    w: "a = w @ fst (snd st')" "st' = (rev w @ b, fst (snd st'), g)" "lo \<le> length w"
       "\<forall>c \<in> set w. cmatch k c" by blast
  have "\<forall>c \<in> set w. Q (to_lower c)"
    using w(4) Rep.prems(1) by (simp add: cmatch_def)
  moreover have "fst st' = rev w @ b" using w(2) by (metis fst_conv)
  ultimately show ?case using w(1,3) st by auto
next
  case (Then r1 r2)
  from Then.prems obtain st1 where s1: "st1 \<in> set (rmatch r1 st)" and s2: "st' \<in> set (rmatch r2 st1)"
    by auto
  from Then.prems(1) have c: "consumes Q r1" "consumes Q r2" by simp_all
  from Then.IH(1) [OF c(1) s1] obtain w1 where
    a1: "fst (snd st) = w1 @ fst (snd st1)" and b1: "fst st1 = rev w1 @ fst st"
    and l1: "min_len r1 \<le> length w1" and q1: "\<forall>c \<in> set w1. Q (to_lower c)" by blast
  from Then.IH(2) [OF c(2) s2] obtain w2 where
    a2: "fst (snd st1) = w2 @ fst (snd st')" and b2: "fst st' = rev w2 @ fst st1"
    and l2: "min_len r2 \<le> length w2" and q2: "\<forall>c \<in> set w2. Q (to_lower c)" by blast
  have "fst (snd st) = (w1 @ w2) @ fst (snd st')" using a1 a2 by simp
  moreover have "fst st' = rev (w1 @ w2) @ fst st" using b1 b2 by simp
  moreover have "min_len (Then r1 r2) \<le> length (w1 @ w2)" using l1 l2 by simp
  moreover have "\<forall>c \<in> set (w1 @ w2). Q (to_lower c)" using q1 q2 by auto
  ultimately show ?case by blast
next
  case (Or r1 r2)
  from Or.prems(1) have c: "consumes Q r1" "consumes Q r2" by simp_all
  from Or.prems(2) consider "st' \<in> set (rmatch r1 st)" | "st' \<in> set (rmatch r2 st)" by auto
  then show ?case
  proof cases
    case 1
    from Or.IH(1) [OF c(1) 1] show ?thesis by (auto intro: min.coboundedI1)
  next
    case 2
    from Or.IH(2) [OF c(2) 2] show ?thesis by (auto intro: min.coboundedI2)
  qed
next
  case (Opt r)
  from Opt.prems(2) consider "st' \<in> set (rmatch r st)" | "st' = st" by auto
  then show ?case
  proof cases
    case 1
    from Opt.IH [OF _ 1] Opt.prems(1) show ?thesis by auto
  next
    case 2
    then show ?thesis by simp
  qed
next
  case (Grp r)
  from Grp.prems(2) obtain st0 where s0: "st0 \<in> set (rmatch r st)"
    and e: "st' = close_group (length (fst st)) st0" by auto
  from Grp.prems(1) have "consumes Q r" by simp
  from Grp.IH [OF this s0] obtain w where
    w: "fst (snd st) = w @ fst (snd st0)" "fst st0 = rev w @ fst st"
       "min_len r \<le> length w" "\<forall>c \<in> set w. Q (to_lower c)" by blast
  have "fst (snd st') = fst (snd st0)" "fst st' = fst st0"
    using e by (cases st0, simp add: close_group_def)+
  with w show ?case by auto
next
  case WordB
  then show ?case by (auto split: if_splits)
qed

lemma match_at_consumes:
  assumes "match_at r b a = Some m" and "consumes Q r"
  shows "\<exists>w a'. a = w @ a' \<and> m_start m = length b \<and> m_end m = length b + length w
           \<and> group0 m = w \<and> min_len r \<le> length w \<and> (\<forall>c \<in> set w. Q (to_lower c))"
proof -
  from match_at_Some [OF assms(1)] obtain w a' g where
    a: "a = w @ a'" and st: "(rev w @ b, a', g) \<in> set (rmatch r (b, a, []))"
    and m: "m = \<lparr>m_start = length b, m_end = length b + length w, group0 = w, groups = g\<rparr>"
    by blast
  from rmatch_consumes [OF assms(2) st] obtain w' where
    w': "a = w' @ a'" "rev w @ b = rev w' @ b" "min_len r \<le> length w'"
        "\<forall>c \<in> set w'. Q (to_lower c)" by auto
  from w'(2) have "w' = w" by simp
  with w' m a show ?thesis by auto
qed

lemma finditer_from_consumes:
  assumes "m \<in> set (re_finditer r s)" and "consumes Q r"
  shows "\<forall>c \<in> set (group0 m). Q (to_lower c)"
proof -
  from assms(1) have "m \<in> set (finditer_from r [] s)" by (simp add: re_finditer_def)
  from finditer_from_mem [OF this] obtain u v where "match_at r (rev u @ []) v = Some m" by blast
  from match_at_consumes [OF this assms(2)] show ?thesis by auto
qed

subsection \<open>The matched texts that hold no name of a month\<close>

lemma months_lower_table:
  "\<forall>mon \<in> set month_abbrevs. \<forall>c \<in> set (str_lower mon). c \<in> set ascii_lower"
  by code_simp

lemma month_match_lower:
  assumes "mon \<in> set month_abbrevs" and "lit_match mon v"
  shows "3 \<le> length v \<and> (\<forall>c \<in> set (take 3 v). to_lower c \<in> set ascii_lower)"
proof -
  from assms(1) month_abbrevs_length have l: "length mon = 3" by blast
  with assms(2) have len: "3 \<le> length v" and eq: "str_lower (take 3 v) = str_lower mon"
    by (simp_all add: lit_match_def)
  have "to_lower c \<in> set ascii_lower" if "c \<in> set (take 3 v)" for c
  proof -
    from that have "to_lower c \<in> set (str_lower (take 3 v))" by (simp add: str_lower_def)
    with eq assms(1) months_lower_table show ?thesis by auto
  qed
  with len show ?thesis by blast
qed

lemma no_month_suffix:
  assumes nm: "\<not> has_month k" and R: "\<forall>c \<in> set rest. to_lower c \<notin> set ascii_lower"
  shows "\<not> has_month (k @ rest)"
proof
  assume "has_month (k @ rest)"
  then obtain u v mon where uv: "k @ rest = u @ v" and mon: "mon \<in> set month_abbrevs"
    and lm: "lit_match mon v" unfolding has_month_iff by blast
  from month_match_lower [OF mon lm] have len: "3 \<le> length v"
    and ltr: "\<forall>c \<in> set (take 3 v). to_lower c \<in> set ascii_lower" by blast+
  from len obtain c0 v' where v: "v = c0 # v'" by (cases v) auto
  then have c0: "to_lower c0 \<in> set ascii_lower" using ltr by simp
  from uv obtain us where d: "(k = u @ us \<and> us @ rest = v) \<or> (k @ us = u \<and> rest = us @ v)"
    unfolding append_eq_append_conv2 by blast
  show False
  proof (cases "k = u @ us \<and> us @ rest = v \<and> us \<noteq> []")
    case False
    with d have "rest = v \<or> rest = us @ v" by auto
    with v have "c0 \<in> set rest" by auto
    with R c0 show False by blast
  next
    case True
    then have ink: "us \<noteq> []" "k = u @ us" "us @ rest = v" by simp_all
    show False
    proof (cases "3 \<le> length us")
      case True
      then have "take (length mon) (us @ rest) = take (length mon) us"
        using mon month_abbrevs_length by simp
      with lm ink(3) True mon month_abbrevs_length have "lit_match mon us"
        by (auto simp: lit_match_def)
      with ink(2) mon have "has_month k" unfolding has_month_iff by blast
      with nm show False by simp
    next
      case False
      then have t: "take 3 (us @ rest) = us @ take (3 - length us) rest" by simp
      from False len ink(3) have "take (3 - length us) rest \<noteq> []" by auto
      then obtain c where "c \<in> set (take (3 - length us) rest)"
        by (cases "take (3 - length us) rest") auto
      then have "c \<in> set rest" "c \<in> set (take 3 v)"
        using t ink(3) by (auto dest: in_set_takeD)
      with R ltr show False by blast
    qed
  qed
qed

lemma has_month_lower:
  assumes eq: "str_lower a = str_lower b" and h: "has_month a"
  shows "has_month b"
proof -
  from h obtain u v mon where a: "a = u @ v" and mon: "mon \<in> set month_abbrevs"
    and lm: "lit_match mon v" unfolding has_month_iff by blast
  from eq have len: "length a = length b" by (metis length_map str_lower_def)
  let ?v = "drop (length u) b"
  have "str_lower ?v = drop (length u) (str_lower b)" by (simp add: str_lower_def drop_map)
  also have "\<dots> = drop (length u) (str_lower a)" by (simp only: eq)
  also have "\<dots> = str_lower v" using a by (simp add: str_lower_def)
  finally have lv: "str_lower ?v = str_lower v" .
  then have lenv: "length ?v = length v" by (metis length_map str_lower_def)
  have "str_lower (take (length mon) ?v) = take (length mon) (str_lower ?v)"
    by (simp add: str_lower_def take_map)
  also have "\<dots> = str_lower (take (length mon) v)"
    unfolding lv by (simp add: str_lower_def take_map)
  finally have "lit_match mon ?v" using lm lenv by (simp add: lit_match_def)
  moreover have "b = take (length u) b @ ?v" by simp
  ultimately show ?thesis using mon unfolding has_month_iff by blast
qed

lemma alts_consumed:
  "L \<noteq> [] \<Longrightarrow> st' \<in> set (rmatch (alts L) st) \<Longrightarrow>
     \<exists>s \<in> set L. \<exists>w. fst (snd st) = w @ fst (snd st') \<and> fst st' = rev w @ fst st
        \<and> str_lower w = str_lower s"
proof (induction L rule: alts.induct)
  case 1
  then show ?case by simp
next
  case (2 s)
  obtain b a g where st: "st = (b, a, g)" by (cases st)
  from "2.prems"(2) have lm: "lit_match s a" and e: "st' = advance (length s) (b, a, g)"
    by (auto simp: st split: if_splits)
  have "fst (snd st) = take (length s) a @ fst (snd st')" "fst st' = rev (take (length s) a) @ fst st"
    using e st by (simp_all add: advance_def)
  moreover have "str_lower (take (length s) a) = str_lower s" using lm by (simp add: lit_match_def)
  ultimately show ?case by auto
next
  case (3 s s' ss)
  from "3.prems"(2) consider "st' \<in> set (rmatch (Lit s) st)" | "st' \<in> set (rmatch (alts (s' # ss)) st)"
    by auto
  then show ?case
  proof cases
    case 1
    obtain b a g where st: "st = (b, a, g)" by (cases st)
    from 1 have lm: "lit_match s a" and e: "st' = advance (length s) (b, a, g)"
      by (auto simp: st split: if_splits)
    have "fst (snd st) = take (length s) a @ fst (snd st')" "fst st' = rev (take (length s) a) @ fst st"
      using e st by (simp_all add: advance_def)
    moreover have "str_lower (take (length s) a) = str_lower s" using lm by (simp add: lit_match_def)
    ultimately show ?thesis by auto
  next
    case 2
    from "3.IH" [OF _ 2] show ?thesis by auto
  qed
qed

lemma labelled_raw_no_month:
  assumes m: "match_at (Then (alts L) r) b a = Some m" and L: "L \<noteq> []"
    and nm: "\<forall>s \<in> set L. \<not> has_month s"
    and c: "consumes (\<lambda>c. c \<notin> set ascii_lower) r"
  shows "\<not> has_month (group0 m)"
proof -
  from match_at_Some [OF m] obtain w a' g where
    a: "a = w @ a'" and st: "(rev w @ b, a', g) \<in> set (rmatch (Then (alts L) r) (b, a, []))"
    and g0: "group0 m = w" by force
  from st obtain st1 where s1: "st1 \<in> set (rmatch (alts L) (b, a, []))"
    and s2: "(rev w @ b, a', g) \<in> set (rmatch r st1)" by auto
  from alts_consumed [OF L s1] obtain s w1 where s: "s \<in> set L"
    and w1: "a = w1 @ fst (snd st1)" "fst st1 = rev w1 @ b" "str_lower w1 = str_lower s" by auto
  from rmatch_consumes [OF c s2] obtain w2 where
    w2: "fst (snd st1) = w2 @ a'" "rev w @ b = rev w2 @ fst st1"
        "\<forall>c \<in> set w2. to_lower c \<notin> set ascii_lower" by auto
  from w2(2) w1(2) have "rev w = rev (w1 @ w2)" by simp
  then have w: "w = w1 @ w2" by (simp only: rev_is_rev_conv)
  have "\<not> has_month w1"
  proof
    assume "has_month w1"
    with w1(3) have "has_month s" by (rule has_month_lower)
    with nm s show False by blast
  qed
  from no_month_suffix [OF this w2(3)] show ?thesis by (simp add: g0 w)
qed

lemma plain_raw_no_month:
  assumes m: "match_at r b a = Some m" and c: "consumes (\<lambda>c. c \<notin> set ascii_lower) r"
  shows "\<not> has_month (group0 m)"
proof -
  from match_at_consumes [OF m c] have "\<forall>c \<in> set (group0 m). to_lower c \<notin> set ascii_lower"
    by auto
  from no_month_suffix [OF _ this, of "[]"] show ?thesis by simp
qed

lemma class_tables:
  "\<forall>c \<in> set ascii_lower. \<not> is_digit c \<and> \<not> is_space c \<and> c \<notin> set ''-/.'' \<and> c \<notin> set '':=''"
  by code_simp

lemma keyword_table: "\<forall>kw \<in> set label_keywords. \<not> has_month kw"
  by code_simp

lemma letter_free_patterns:
  "consumes (\<lambda>c. c \<notin> set ascii_lower) pat_numeric"
  "consumes (\<lambda>c. c \<notin> set ascii_lower) pat_iso"
  "consumes (\<lambda>c. c \<notin> set ascii_lower) pat_dotted"
  "consumes (\<lambda>c. c \<notin> set ascii_lower)
     (seq [spaces, Rep (CChars '':='') 0 (Some 1), spaces, Grp (seq [d12, sep, d12, sep, d24])])"
  "consumes (\<lambda>c. c \<notin> set ascii_lower)
     (seq [spaces, Rep (CChars '':='') 0 (Some 1), spaces, Grp (seq [d4, sep, d12, sep, d12])])"
  using class_tables by (auto simp: pat_defs)

lemma keyword_iso_table:
  "\<forall>kw \<in> set [''EXP'', ''Exp'', ''Expiry'', ''Best Before'', ''Use By'']. \<not> has_month kw"
  by code_simp

lemma raw_no_month:
  assumes p: "p \<in> set [pat_numeric, pat_iso, pat_dotted, pat_keyword, pat_keyword_iso]"
    and m: "m \<in> set (re_finditer p s)"
  shows "\<not> has_month (group0 m)"
proof -
  from m have "m \<in> set (finditer_from p [] s)" by (simp add: re_finditer_def)
  from finditer_from_mem [OF this] obtain u v where ma: "match_at p (rev u @ []) v = Some m"
    by blast
  from p consider "p = pat_numeric" | "p = pat_iso" | "p = pat_dotted" | "p = pat_keyword"
    | "p = pat_keyword_iso" by auto
  then show ?thesis
  proof cases
    case 1
    with ma letter_free_patterns(1) show ?thesis by (simp add: plain_raw_no_month)
  next
    case 2
    with ma letter_free_patterns(2) show ?thesis by (simp add: plain_raw_no_month)
  next
    case 3
    with ma letter_free_patterns(3) show ?thesis by (simp add: plain_raw_no_month)
  next
    case 4
    have e: "pat_keyword = Then (alts label_keywords)
        (seq [spaces, Rep (CChars '':='') 0 (Some 1), spaces, Grp (seq [d12, sep, d12, sep, d24])])"
      by (simp add: pat_keyword_def)
    have ne: "label_keywords \<noteq> []" by (simp add: label_keywords_def)
    from ma have "match_at (Then (alts label_keywords)
        (seq [spaces, Rep (CChars '':='') 0 (Some 1), spaces, Grp (seq [d12, sep, d12, sep, d24])]))
        (rev u @ []) v = Some m" by (simp only: 4 e)
    from labelled_raw_no_month [OF this ne keyword_table letter_free_patterns(4)] show ?thesis .
  next
    case 5
    have e: "pat_keyword_iso = Then (alts [''EXP'', ''Exp'', ''Expiry'', ''Best Before'', ''Use By''])
        (seq [spaces, Rep (CChars '':='') 0 (Some 1), spaces, Grp (seq [d4, sep, d12, sep, d12])])"
      by (simp add: pat_keyword_iso_def)
    have ne: "[''EXP'', ''Exp'', ''Expiry'', ''Best Before'', ''Use By''] \<noteq> []" by simp
    from ma have "match_at (Then (alts [''EXP'', ''Exp'', ''Expiry'', ''Best Before'', ''Use By''])
        (seq [spaces, Rep (CChars '':='') 0 (Some 1), spaces, Grp (seq [d4, sep, d12, sep, d12])]))
        (rev u @ []) v = Some m" by (simp only: 5 e)
    from labelled_raw_no_month [OF this ne keyword_iso_table letter_free_patterns(5)] show ?thesis .
  qed
qed

text \<open>
  Without an occurrence of the two shapes with the name of a month, no exception leaves
  \<open>extract_potential_dates\<close>.
\<close>

lemma extract_potential_dates_returns:
  assumes "no_month_shapes s"
  shows "extract_potential_dates s
           = Inr (concat (map (\<lambda>p. List.map_filter accepted (re_finditer p s)) DATE_PATTERNS))"
proof -
  have "\<forall>p \<in> set DATE_PATTERNS. \<forall>m \<in> set (re_finditer p s). \<forall>e. parse_date (group0 m) \<noteq> Inl e"
  proof (intro ballI)
    fix p m assume p: "p \<in> set DATE_PATTERNS" and m: "m \<in> set (re_finditer p s)"
    from p consider "p \<in> set [pat_numeric, pat_iso, pat_dotted, pat_keyword, pat_keyword_iso]"
      | "p = pat_day_month" | "p = pat_month_day" by (auto simp: DATE_PATTERNS_def)
    then have "\<not> has_month (group0 m)"
    proof cases
      case 1
      then show ?thesis using m by (rule raw_no_month)
    next
      case 2
      with m assms show ?thesis by (simp add: no_month_shapes_def)
    next
      case 3
      with m assms show ?thesis by (simp add: no_month_shapes_def)
    qed
    then show "\<forall>e. parse_date (group0 m) \<noteq> Inl e" by (rule parse_date_safe)
  qed
  from collect_patterns_total [OF this, of "[]"] show ?thesis
    by (simp add: extract_potential_dates_def)
qed

lemma no_month_no_shapes:
  assumes "\<not> has_month s"
  shows "no_month_shapes s"
  using re_search_no_month [OF assms pattern_months(1)] re_search_no_month [OF assms pattern_months(2)]
  by (simp add: no_month_shapes_def re_finditer_def re_search_def
      finditer_from.simps [of pat_day_month "[]" s] finditer_from.simps [of pat_month_day "[]" s])

subsection \<open>The scan reaches a delimited date\<close>

lemma to_lower_nonword: "\<not> is_word c \<Longrightarrow> to_lower c = c"
proof -
  assume "\<not> is_word c"
  then have "c \<notin> set ascii_upper" by (simp add: is_word_def)
  moreover have "length ascii_upper = length ascii_lower"
    by (simp add: ascii_upper_def ascii_lower_def)
  ultimately have "map_of (zip ascii_upper ascii_lower) c = None"
    by (simp add: map_of_zip_is_None)
  then show ?thesis by (simp add: to_lower_def)
qed

lemma search_from_first:
  assumes "match_at r (rev x @ b) y = Some m0"
  shows "\<exists>m. search_from r b (x @ y) = Some m
           \<and> (m = m0 \<or> (\<exists>u v. x = u @ v \<and> v \<noteq> [] \<and> match_at r (rev u @ b) (v @ y) = Some m))"
  using assms
proof (induction x arbitrary: b)
  case Nil
  then show ?case by (simp add: search_from_hit)
next
  case (Cons c x)
  show ?case
  proof (cases "match_at r b (c # x @ y)")
    case (Some m)
    then have "search_from r b ((c # x) @ y) = Some m" by simp
    moreover have "c # x = [] @ (c # x) \<and> c # x \<noteq> []
        \<and> match_at r (rev [] @ b) ((c # x) @ y) = Some m" using Some by simp
    ultimately show ?thesis by blast
  next
    case None
    from Cons.prems have "match_at r (rev x @ c # b) y = Some m0" by simp
    from Cons.IH [OF this] obtain m where s: "search_from r (c # b) (x @ y) = Some m"
      and d: "m = m0 \<or> (\<exists>u v. x = u @ v \<and> v \<noteq> [] \<and> match_at r (rev u @ c # b) (v @ y) = Some m)"
      by blast
    have s': "search_from r b ((c # x) @ y) = Some m" using None s by simp
    from d show ?thesis
    proof
      assume "m = m0"
      with s' show ?thesis by blast
    next
      assume "\<exists>u v. x = u @ v \<and> v \<noteq> [] \<and> match_at r (rev u @ c # b) (v @ y) = Some m"
      then obtain u v where "x = u @ v" "v \<noteq> []" "match_at r (rev u @ c # b) (v @ y) = Some m"
        by blast
      then have "c # x = (c # u) @ v \<and> v \<noteq> [] \<and> match_at r (rev (c # u) @ b) (v @ y) = Some m"
        by simp
      with s' show ?thesis by blast
    qed
  qed
qed

text \<open>
  A match at the end of \<open>pre\<close> is one of the occurrences that the scan yields, when every
  match that starts inside \<open>pre\<close> is not empty and ends inside \<open>pre\<close>.
\<close>

lemma finditer_from_reach:
  assumes hit: "match_at r (rev pre) y = Some mR"
    and inside: "\<And>u v m. pre = u @ v \<Longrightarrow> v \<noteq> [] \<Longrightarrow> match_at r (rev u) (v @ y) = Some m
                   \<Longrightarrow> m_start m < m_end m \<and> m_end m \<le> length pre"
  shows "pre = u @ v \<Longrightarrow> mR \<in> set (finditer_from r (rev u) (v @ y))"
proof (induction "length v" arbitrary: u v rule: less_induct)
  case less
  have "match_at r (rev v @ rev u) y = Some mR" using hit less.prems by simp
  from search_from_first [OF this] obtain m where s: "search_from r (rev u) (v @ y) = Some m"
    and d: "m = mR \<or> (\<exists>u' v'. v = u' @ v' \<and> v' \<noteq> [] \<and> match_at r (rev u' @ rev u) (v' @ y) = Some m)"
    by blast
  from d show ?case
  proof
    assume "m = mR"
    with s show ?thesis by (simp add: finditer_from.simps [of r "rev u" "v @ y"])
  next
    assume "\<exists>u' v'. v = u' @ v' \<and> v' \<noteq> [] \<and> match_at r (rev u' @ rev u) (v' @ y) = Some m"
    then obtain u' v' where v: "v = u' @ v'" and ne: "v' \<noteq> []"
      and ma: "match_at r (rev u' @ rev u) (v' @ y) = Some m" by blast
    have p: "pre = (u @ u') @ v'" using less.prems v by simp
    from ma have ma': "match_at r (rev (u @ u')) (v' @ y) = Some m" by simp
    from inside [OF p ne ma'] have sp: "m_start m < m_end m" "m_end m \<le> length pre" by simp_all
    from match_at_Some [OF ma'] have st: "m_start m = length u + length u'" by auto
    let ?n = "m_end m - length u"
    have n: "0 < ?n" "?n \<le> length v" using sp st less.prems by simp_all
    have f: "finditer_from r (rev u) (v @ y)
               = m # finditer_from r (rev (take ?n v) @ rev u) (drop ?n v @ y)"
      using s sp n by (simp add: finditer_from.simps [of r "rev u" "v @ y"] Let_def)
    have "pre = (u @ take ?n v) @ drop ?n v" using less.prems by simp
    moreover have "length (drop ?n v) < length v" using n ne v by simp
    ultimately have "mR \<in> set (finditer_from r (rev (u @ take ?n v)) (drop ?n v @ y))"
      using less.hyps by blast
    then show ?thesis using f by simp
  qed
qed

lemma consumes_numeric: "consumes (\<lambda>c. is_digit c \<or> c \<in> set ''-/.'') pat_numeric"
  by (simp add: pat_defs)

lemma min_len_numeric: "min_len pat_numeric = 6"
  by (simp add: pat_defs)

lemma numeric_inside:
  assumes db: "delimited_before pre" and p: "pre = u @ v" and ne: "v \<noteq> []"
    and ma: "match_at pat_numeric (rev u) (v @ y) = Some m"
  shows "m_start m < m_end m \<and> m_end m \<le> length pre"
proof -
  from match_at_consumes [OF ma consumes_numeric] obtain w a' where
    w: "v @ y = w @ a'" "m_start m = length (rev u)" "m_end m = length (rev u) + length w"
       "min_len pat_numeric \<le> length w"
       "\<forall>c \<in> set w. is_digit (to_lower c) \<or> to_lower c \<in> set ''-/.''" by blast
  from w(4) have "6 \<le> length w" by (simp only: min_len_numeric)
  then have pos: "0 < length w" by linarith
  from ne obtain c v' where v: "v = c # v'" by (cases v) auto
  have dc: "is_digit c"
  proof (rule ccontr)
    assume "\<not> is_digit c"
    then have "match_at pat_numeric (rev u) (c # v' @ y) = None" by (rule match_at_numeric_nondigit)
    with ma v show False by simp
  qed
  from p ne db have lw: "\<not> is_word (last pre)"
    and alt: "last pre \<notin> set ''-/.'' \<or> (\<forall>c \<in> set pre. \<not> is_digit c)"
    by (auto simp: delimited_before_def)
  have "c \<in> set pre" using p v by simp
  with dc alt have ns: "last pre \<notin> set ''-/.''" by blast
  have lv: "last v = last pre" using p ne by simp
  have "length w < length v"
  proof (rule ccontr)
    assume "\<not> length w < length v"
    then have "length v \<le> length w" by simp
    then have t: "take (length v) (w @ a') = take (length v) w" by simp
    have "v = take (length v) (v @ y)" by simp
    also have "\<dots> = take (length v) (w @ a')" by (simp only: w(1))
    finally have "v = take (length v) w" by (simp only: t)
    then have "set v \<subseteq> set w" by (metis set_take_subset)
    with ne have "last v \<in> set w" by auto
    with w(5) lv have "is_digit (to_lower (last pre)) \<or> to_lower (last pre) \<in> set ''-/.''"
      by auto
    with to_lower_nonword [OF lw] have "is_digit (last pre) \<or> last pre \<in> set ''-/.''" by simp
    with lw ns digit_facts(3) show False by blast
  qed
  with w(2,3) pos p show ?thesis by simp
qed

lemma numeric_date_found:
  assumes D: "str_isdigit D" "length D \<le> 2" and M: "str_isdigit M" "length M \<le> 2"
    and Y: "str_isdigit Y" "length Y = 2 \<or> length Y = 4"
    and s: "s1 \<in> set ''-/.''" "s2 \<in> set ''-/.''"
    and r: "(dy, mo) = (if 1 \<le> py_int D \<and> py_int D \<le> 31 \<and> 1 \<le> py_int M \<and> py_int M \<le> 12
                         then (py_int D, py_int M) else (py_int M, py_int D))"
    and y: "fix_year (PyInt (py_int Y)) = Inr y"
    and v: "valid_date y mo dy" "2020 \<le> y" "y \<le> 2035"
    and before: "delimited_before pre" and after: "delimited_after post"
    and safe: "no_month_shapes (pre @ D @ s1 # M @ s2 # Y @ post)"
  shows "\<exists>cs. extract_potential_dates (pre @ D @ s1 # M @ s2 # Y @ post) = Inr cs
           \<and> \<lparr>date = midnight y mo dy, raw = D @ s1 # M @ s2 # Y, confidence = 0.85\<rparr> \<in> set cs"
proof -
  let ?R = "D @ s1 # M @ s2 # Y"
  let ?y = "D @ s1 # M @ s2 # Y @ post"
  let ?m = "\<lparr>m_start = length (rev pre), m_end = length (rev pre) + length ?R,
             group0 = ?R, groups = [D, M, Y]\<rparr>"
  let ?c = "\<lparr>date = midnight y mo dy, raw = ?R, confidence = 0.85\<rparr>"
  have tot: "extract_potential_dates (pre @ ?y)
      = Inr (concat (map (\<lambda>p. List.map_filter accepted (re_finditer p (pre @ ?y))) DATE_PATTERNS))"
    using safe by (rule extract_potential_dates_returns)
  have bw: "(case rev pre of [] \<Rightarrow> False | c # x \<Rightarrow> is_word c) = False"
    using before by (cases pre rule: rev_cases) (simp_all add: delimited_before_def)
  have pw: "post = [] \<or> \<not> is_word (hd post)" using after by (simp add: delimited_after_def)
  have hit: "match_at pat_numeric (rev pre) ?y = Some ?m"
    by (rule match_at_numeric [OF D M Y s bw pw])
  have "?m \<in> set (finditer_from pat_numeric (rev []) (pre @ ?y))"
  proof (rule finditer_from_reach [OF hit])
    fix u v m
    assume "pre = u @ v" "v \<noteq> []" "match_at pat_numeric (rev u) (v @ ?y) = Some m"
    then show "m_start m < m_end m \<and> m_end m \<le> length pre" by (rule numeric_inside [OF before])
  next
    show "pre = [] @ pre" by simp
  qed
  then have fi: "?m \<in> set (re_finditer pat_numeric (pre @ ?y))" by (simp add: re_finditer_def)
  have "parse_date ?R = Inr (Some (midnight y mo dy))"
    by (rule parse_date_numeric [OF D M Y s r y v])
  then have "accepted ?m = Some ?c" by (simp add: accepted_def)
  with fi have "?c \<in> set (List.map_filter accepted (re_finditer pat_numeric (pre @ ?y)))"
    unfolding set_map_filter by blast
  moreover have "pat_numeric \<in> set DATE_PATTERNS" by (simp add: DATE_PATTERNS_def)
  ultimately have "?c \<in> set (concat (map (\<lambda>p. List.map_filter accepted (re_finditer p (pre @ ?y)))
                       DATE_PATTERNS))"
    unfolding set_concat set_map by blast
  with tot show ?thesis by simp
qed

lemma days_in_month_le: "days_in_month y m \<le> 31"
  by (simp add: days_in_month_def)

lemma label_contexts:
  "\<forall>kw \<in> set label_keywords. \<forall>mid \<in> set ['':'', ''='', '' '', '': '', ''= ''].
      delimited_before (kw @ mid) \<and> \<not> has_month (kw @ mid)"
  by code_simp

lemma numeric_no_letters:
  assumes "\<forall>c \<in> set R. is_digit c \<or> c \<in> set ''-/.''"
  shows "\<forall>c \<in> set R. to_lower c \<notin> set ascii_lower"
proof
  fix c assume "c \<in> set R"
  with assms have d: "is_digit c \<or> c \<in> set ''-/.''" by blast
  then have "to_lower c = c"
  proof
    assume "is_digit c"
    then have "c \<in> set ''0123456789''" by (simp only: is_digit_def)
    with digit_table show ?thesis by blast
  next
    assume "c \<in> set ''-/.''"
    with sep_table show ?thesis by blast
  qed
  moreover have "c \<notin> set ascii_lower" using d class_tables by blast
  ultimately show "to_lower c \<notin> set ascii_lower" by simp
qed

text \<open>
  Claim C1, as amended. Take a valid calendar date with its year in 2020..2035, printed
  as day, month, year with separators among \<open>-\<close>, \<open>/\<close> and \<open>.\<close> (the dotted shape
  included), the day and the month with or without a leading zero, the year with four
  digits or with its last two. Let the printed date stand anywhere in a text, delimited:
  in front of it nothing or a character that is not a word character (and no digit
  anywhere in front when that character is itself a separator), behind it nothing or a
  character that is not a word character. If the text has no occurrence of the two shapes
  with the name of a month, then \<open>extract_potential_dates\<close> returns, and one of its
  candidates carries exactly this date, with the printed date as its matched text. The
  same holds for the order month, day, year when the day exceeds 12 (or equals the
  month). A label keyword followed by a colon, an equals sign or a space, and then the
  printed date, is such a text, so the keyword-prefixed numeric shape is covered.
\<close>

theorem numeric_dates_extracted:
  assumes "valid_date y m d" and "2020 \<le> y" and "y \<le> 2035"
    and "D \<in> set (field_renderings (nat d))" and "M \<in> set (field_renderings (nat m))"
    and "Y \<in> set (year_renderings (nat y))"
    and "s1 \<in> set ''-/.''" and "s2 \<in> set ''-/.''"
    and "delimited_before pre" and "delimited_after post"
  shows "(no_month_shapes (pre @ D @ s1 # M @ s2 # Y @ post) \<longrightarrow>
            (\<exists>cs. extract_potential_dates (pre @ D @ s1 # M @ s2 # Y @ post) = Inr cs
               \<and> \<lparr>date = midnight y m d, raw = D @ s1 # M @ s2 # Y, confidence = 0.85\<rparr> \<in> set cs))
       \<and> ((12 < d \<or> d = m) \<and> no_month_shapes (pre @ M @ s1 # D @ s2 # Y @ post) \<longrightarrow>
            (\<exists>cs. extract_potential_dates (pre @ M @ s1 # D @ s2 # Y @ post) = Inr cs
               \<and> \<lparr>date = midnight y m d, raw = M @ s1 # D @ s2 # Y, confidence = 0.85\<rparr> \<in> set cs))
       \<and> (\<forall>kw \<in> set label_keywords. \<forall>mid \<in> set ['':'', ''='', '' '', '': '', ''= ''].
            delimited_before (kw @ mid)
            \<and> no_month_shapes ((kw @ mid) @ D @ s1 # M @ s2 # Y)
            \<and> no_month_shapes ((kw @ mid) @ M @ s1 # D @ s2 # Y))"
proof -
  from assms(1) have rng: "1 \<le> d" "d \<le> 31" "1 \<le> m" "m \<le> 12"
    using days_in_month_le [of y m] by (simp_all add: valid_date_def)
  from field_renderings_facts [OF assms(4)] rng
  have D: "str_isdigit D" "length D \<le> 2" and pD: "py_int D = d" by simp_all
  from field_renderings_facts [OF assms(5)] rng
  have M: "str_isdigit M" "length M \<le> 2" and pM: "py_int M = m" by simp_all
  from year_renderings_facts [OF assms(6)] assms(2,3)
  have Y: "str_isdigit Y" "length Y = 2 \<or> length Y = 4"
    and fy: "fix_year (PyInt (py_int Y)) = Inr y" by simp_all
  have r1: "(d, m) = (if 1 \<le> py_int D \<and> py_int D \<le> 31 \<and> 1 \<le> py_int M \<and> py_int M \<le> 12
                       then (py_int D, py_int M) else (py_int M, py_int D))"
    using rng pD pM by simp
  have a: "\<exists>cs. extract_potential_dates (pre @ D @ s1 # M @ s2 # Y @ post) = Inr cs
            \<and> \<lparr>date = midnight y m d, raw = D @ s1 # M @ s2 # Y, confidence = 0.85\<rparr> \<in> set cs"
    if "no_month_shapes (pre @ D @ s1 # M @ s2 # Y @ post)"
    by (rule numeric_date_found [OF D M Y assms(7,8) r1 fy assms(1,2,3,9,10) that])
  have b: "\<exists>cs. extract_potential_dates (pre @ M @ s1 # D @ s2 # Y @ post) = Inr cs
               \<and> \<lparr>date = midnight y m d, raw = M @ s1 # D @ s2 # Y, confidence = 0.85\<rparr> \<in> set cs"
    if "12 < d \<or> d = m" and "no_month_shapes (pre @ M @ s1 # D @ s2 # Y @ post)"
  proof -
    have r2: "(d, m) = (if 1 \<le> py_int M \<and> py_int M \<le> 31 \<and> 1 \<le> py_int D \<and> py_int D \<le> 12
                       then (py_int M, py_int D) else (py_int D, py_int M))"
      using rng pD pM that(1) by auto
    show ?thesis
      by (rule numeric_date_found [OF M D Y assms(7,8) r2 fy assms(1,2,3,9,10) that(2)])
  qed
  have chars: "\<forall>c \<in> set (D @ s1 # M @ s2 # Y). is_digit c \<or> c \<in> set ''-/.''"
    "\<forall>c \<in> set (M @ s1 # D @ s2 # Y). is_digit c \<or> c \<in> set ''-/.''"
    using D(1) M(1) Y(1) assms(7,8) by (auto simp: str_isdigit_def)
  have c: "delimited_before (kw @ mid)
            \<and> no_month_shapes ((kw @ mid) @ D @ s1 # M @ s2 # Y)
            \<and> no_month_shapes ((kw @ mid) @ M @ s1 # D @ s2 # Y)"
    if "kw \<in> set label_keywords" and "mid \<in> set ['':'', ''='', '' '', '': '', ''= '']" for kw mid
  proof -
    from label_contexts that have k: "delimited_before (kw @ mid)" "\<not> has_month (kw @ mid)"
      by blast+
    have "\<not> has_month ((kw @ mid) @ D @ s1 # M @ s2 # Y)"
      using k(2) chars(1) [THEN numeric_no_letters] by (rule no_month_suffix)
    moreover have "\<not> has_month ((kw @ mid) @ M @ s1 # D @ s2 # Y)"
      using k(2) chars(2) [THEN numeric_no_letters] by (rule no_month_suffix)
    ultimately show ?thesis using k(1) by (simp only: no_month_no_shapes simp_thms)
  qed
  from a b c show ?thesis by blast
qed

text \<open>
  The date of 13 May 2026 is found behind a lot number, in front of more text or of a
  line break, in the order month, day, year, and beside the words MAY CONTAIN, which form
  neither of the two shapes with the name of a month.
\<close>

theorem numeric_dates_extracted_witness:
  "(\<exists>cs. extract_potential_dates ''LOT 42 EXP: 13/05/2026'' = Inr cs
       \<and> \<lparr>date = midnight 2026 5 13, raw = ''13/05/2026'', confidence = 0.85\<rparr> \<in> set cs)
   \<and> (\<exists>cs. extract_potential_dates ''EXP: 13/05/2026 LOT A'' = Inr cs
       \<and> \<lparr>date = midnight 2026 5 13, raw = ''13/05/2026'', confidence = 0.85\<rparr> \<in> set cs)
   \<and> (\<exists>cs. extract_potential_dates (''EXP: 13/05/2026'' @ [CHR 0x0A]) = Inr cs
       \<and> \<lparr>date = midnight 2026 5 13, raw = ''13/05/2026'', confidence = 0.85\<rparr> \<in> set cs)
   \<and> (\<exists>cs. extract_potential_dates ''EXP: 05/13/2026'' = Inr cs
       \<and> \<lparr>date = midnight 2026 5 13, raw = ''05/13/2026'', confidence = 0.85\<rparr> \<in> set cs)
   \<and> (\<exists>cs. extract_potential_dates ''BEST BEFORE 13.05.26 MAY CONTAIN NUTS'' = Inr cs
       \<and> \<lparr>date = midnight 2026 5 13, raw = ''13.05.26'', confidence = 0.85\<rparr> \<in> set cs)"
proof -
  have h1: "valid_date 2026 5 13" by (simp add: valid_date_def days_in_month_def)
  have h2: "(2020::int) \<le> 2026" "(2026::int) \<le> 2035" by simp_all
  have h3: "''13'' \<in> set (field_renderings (nat 13))" by code_simp
  have h4: "''05'' \<in> set (field_renderings (nat 5))" by code_simp
  have h5: "''2026'' \<in> set (year_renderings (nat 2026))" by code_simp
  have h5': "''26'' \<in> set (year_renderings (nat 2026))" by code_simp
  have h6: "CHR ''/'' \<in> set ''-/.''" "CHR ''.'' \<in> set ''-/.''" by simp_all
  have b1: "delimited_before ''LOT 42 EXP: ''" by code_simp
  have b2: "delimited_before ''EXP: ''" by code_simp
  have b3: "delimited_before ''BEST BEFORE ''" by code_simp
  have a1: "delimited_after []" by code_simp
  have a2: "delimited_after '' LOT A''" by code_simp
  have a3: "delimited_after [CHR 0x0A]" by code_simp
  have a4: "delimited_after '' MAY CONTAIN NUTS''" by code_simp
  have n1: "no_month_shapes ''LOT 42 EXP: 13/05/2026''" by code_simp
  have n2: "no_month_shapes ''EXP: 13/05/2026 LOT A''" by code_simp
  have n3: "no_month_shapes (''EXP: 13/05/2026'' @ [CHR 0x0A])" by code_simp
  have n4: "no_month_shapes ''EXP: 05/13/2026''" by code_simp
  have n5: "no_month_shapes ''BEST BEFORE 13.05.26 MAY CONTAIN NUTS''" by code_simp
  from numeric_dates_extracted [OF h1 h2 h3 h4 h5 h6(1) h6(1) b1 a1]
    numeric_dates_extracted [OF h1 h2 h3 h4 h5 h6(1) h6(1) b2 a2]
    numeric_dates_extracted [OF h1 h2 h3 h4 h5 h6(1) h6(1) b2 a3]
    numeric_dates_extracted [OF h1 h2 h3 h4 h5 h6(1) h6(1) b2 a1]
    numeric_dates_extracted [OF h1 h2 h3 h4 h5' h6(2) h6(2) b3 a4]
    n1 n2 n3 n4 n5
  show ?thesis by simp
qed

text \<open>
  Claim C1, as stated, fails. 5 March 2026 printed month first is read as 3 May; a date
  with a leading four-digit year yields no candidate, with a keyword in front or without;
  a day followed by the name of a month raises a \<^verbatim>\<open>TypeError\<close>, and the name of a month
  followed by a day raises a \<^verbatim>\<open>ValueError\<close>.
\<close>

theorem numeric_dates_extracted_counterexample:
  "extract_potential_dates ''03-05-2026''
     = Inr [\<lparr>date = midnight 2026 5 3, raw = ''03-05-2026'', confidence = 0.85\<rparr>]
   \<and> extract_potential_dates ''2026-05-13'' = Inr []
   \<and> extract_potential_dates ''13 May 2026''
       = Inl (TypeError (quoted ''<'' @ '' not supported between instances of '' @ quoted ''str''
                @ '' and '' @ quoted ''int''))
   \<and> extract_potential_dates ''May 13, 2026''
       = Inl (ValueError ''not enough values to unpack (expected 3, got 2)'')
   \<and> extract_potential_dates ''EXP: 2026-05-13'' = Inr []"
  by code_simp

section \<open>Candidate selection\<close>

lemmas cal_defs = timedelta_days_def to_micros_def ymd2ord_def days_before_year_def
  days_before_month_def is_leap_def midnight_def

text \<open>Evaluation of the float operations, and the two bounds that the scoring needs.\<close>

lemma quantum_numeral:
  "quantum (numeral k) a e q =
     (if 9007199254740992 * q \<le> a then quantum (pred_numeral k) a (e + 1) (2 * q)
      else if a < 4503599627370496 * q \<and> - 1074 < e then quantum (pred_numeral k) a (e - 1) (q / 2)
      else q)"
  by (simp add: numeral_eq_Suc)

lemmas float_eval = float_mul_def double_of_def round_to_def round_half_even_def quantum_numeral








text \<open>The three scores of a candidate of base confidence 0.85.\<close>

lemma scores_085:
  "min (float_mul 0.85 1.4) 1 = 1"
  "min (float_mul 0.85 0.9) 1 = double_of 0.765"
  "min (float_mul 0.85 0.3) 1 = double_of 0.255"
  "double_of 0.765 < 1" "double_of 0.255 < 1"
  by (simp_all add: float_eval)

lemma select_none_iff: "select_best_expiry now cs = None \<longleftrightarrow> cs = []"
  by (cases cs) (simp_all add: select_best_expiry_def)

lemma detect_not_NoValidExpiry: "detect e p n1 n2 \<noteq> Inr (NoValidExpiry rs oc)"
  by (auto simp: detect_def select_none_iff split: sum.splits prod.splits option.splits)



lemma max_by_confidence_first:
  "\<exists>pre r post. b # xs = pre @ r # post \<and> max_by_confidence b xs = r
      \<and> (\<forall>y \<in> set pre. confidence y < confidence r)
      \<and> (\<forall>y \<in> set post. confidence y \<le> confidence r)"
proof (induction xs arbitrary: b)
  case Nil
  have "[b] = [] @ b # []" by simp
  then show ?case by fastforce
next
  case (Cons x xs)
  show ?case
  proof (cases "confidence b < confidence x")
    case True
    from Cons.IH [of x] obtain pre r post where
      d: "x # xs = pre @ r # post" and m: "max_by_confidence x xs = r"
      and lt: "\<forall>y \<in> set pre. confidence y < confidence r"
      and le: "\<forall>y \<in> set post. confidence y \<le> confidence r" by blast
    have "confidence x \<le> confidence r"
      using d lt by (cases pre) auto
    with True have br: "confidence b < confidence r" by simp
    have "b # x # xs = (b # pre) @ r # post" using d by simp
    moreover have "max_by_confidence b (x # xs) = r" using True m by simp
    moreover have "\<forall>y \<in> set (b # pre). confidence y < confidence r" using br lt by simp
    ultimately show ?thesis using le by blast
  next
    case False
    from Cons.IH [of b] obtain pre r post where
      d: "b # xs = pre @ r # post" and m: "max_by_confidence b xs = r"
      and lt: "\<forall>y \<in> set pre. confidence y < confidence r"
      and le: "\<forall>y \<in> set post. confidence y \<le> confidence r" by blast
    have mm: "max_by_confidence b (x # xs) = r" using False m by simp
    show ?thesis
    proof (cases pre)
      case Nil
      with d have rb: "r = b" and px: "post = xs" by simp_all
      have "b # x # xs = [] @ r # (x # post)" using rb px by simp
      moreover have "\<forall>y \<in> set (x # post). confidence y \<le> confidence r"
        using le False rb by auto
      ultimately show ?thesis using mm by (metis empty_iff list.set(1))
    next
      case (Cons p pre')
      with d have pb: "p = b" and xs: "xs = pre' @ r # post" by simp_all
      have "confidence b < confidence r" using lt Cons pb by simp
      with False have "confidence x < confidence r" by simp
      then have "\<forall>y \<in> set (b # x # pre'). confidence y < confidence r"
        using lt Cons pb by simp
      moreover have "b # x # xs = (b # x # pre') @ r # post" using xs by simp
      ultimately show ?thesis using mm le by blast
    qed
  qed
qed

lemma select_best_expiry_first_max:
  assumes "cs \<noteq> []"
  shows "\<exists>pre c post. cs = pre @ c # post
           \<and> select_best_expiry now cs = Some (score_candidate now c)
           \<and> (\<forall>x \<in> set pre. confidence (score_candidate now x) < confidence (score_candidate now c))
           \<and> (\<forall>x \<in> set post. confidence (score_candidate now x) \<le> confidence (score_candidate now c))"
proof -
  from assms obtain c0 cs0 where cs: "cs = c0 # cs0" by (cases cs) auto
  let ?f = "score_candidate now"
  from max_by_confidence_first [of "?f c0" "map ?f cs0"] obtain pre' r post' where
    d: "?f c0 # map ?f cs0 = pre' @ r # post'"
    and m: "max_by_confidence (?f c0) (map ?f cs0) = r"
    and lt: "\<forall>y \<in> set pre'. confidence y < confidence r"
    and le: "\<forall>y \<in> set post'. confidence y \<le> confidence r" by blast
  from d have "map ?f cs = pre' @ r # post'" by (simp add: cs)
  then obtain pre rest where cs2: "cs = pre @ rest" and p1: "map ?f pre = pre'"
    and p2: "map ?f rest = r # post'"
    by (auto simp: map_eq_append_conv)
  from p2 obtain c post where rest: "rest = c # post" and rc: "?f c = r" and p3: "map ?f post = post'"
    by (auto simp: map_eq_Cons_conv)
  have sel: "select_best_expiry now cs = Some (?f c)"
    using m rc by (simp add: select_best_expiry_def cs)
  have "\<forall>x \<in> set pre. confidence (?f x) < confidence (?f c)"
    using lt p1 rc by auto
  moreover have "\<forall>x \<in> set post. confidence (?f x) \<le> confidence (?f c)"
    using le p3 rc by auto
  ultimately show ?thesis using cs2 rest sel by blast
qed

lemma max_by_confidence_mem: "max_by_confidence b xs \<in> set (b # xs)"
  by (induction xs arbitrary: b) (auto split: if_splits)

lemma select_best_expiry_Some:
  assumes "select_best_expiry now cs = Some best"
  shows "\<exists>c \<in> set cs. best = score_candidate now c"
proof -
  from assms obtain c0 cs0 where cs: "cs = c0 # cs0"
    by (cases cs) (auto simp: select_best_expiry_def)
  from assms have "best = max_by_confidence (score_candidate now c0) (map (score_candidate now) cs0)"
    by (simp add: select_best_expiry_def cs)
  with max_by_confidence_mem [of "score_candidate now c0" "map (score_candidate now) cs0"]
  show ?thesis by (auto simp: cs)
qed

lemma select_best_expiry_days:
  assumes "select_best_expiry now cs = Some best"
  shows "days_until best = timedelta_days (date best) now"
  using select_best_expiry_Some [OF assms] by (auto simp: score_candidate_def Let_def)

lemma timedelta_days_antimono:
  "to_micros n1 \<le> to_micros n2 \<Longrightarrow> timedelta_days d n2 \<le> timedelta_days d n1"
  by (simp add: timedelta_days_def zdiv_mono1)



text \<open>
  Claim C4, as amended. Of three candidates 10, 400 and 2000 days ahead, each with base
  confidence 0.85, the first two both reach the adjusted confidence 1.0 and the third
  0.255; in every order of the three, \<open>select_best_expiry\<close> returns whichever of the
  first two comes first in the list.
\<close>

theorem select_best_expiry_example:
  assumes "timedelta_days (date c1) now = 10" and "timedelta_days (date c2) now = 400"
    and "timedelta_days (date c3) now = 2000"
    and "confidence c1 = 0.85" and "confidence c2 = 0.85" and "confidence c3 = 0.85"
  shows "select_best_expiry now [c1, c2, c3]
           = Some \<lparr>date = date c1, raw = raw c1, confidence = 1, days_until = 10\<rparr>
       \<and> select_best_expiry now [c1, c3, c2]
           = Some \<lparr>date = date c1, raw = raw c1, confidence = 1, days_until = 10\<rparr>
       \<and> select_best_expiry now [c3, c1, c2]
           = Some \<lparr>date = date c1, raw = raw c1, confidence = 1, days_until = 10\<rparr>
       \<and> select_best_expiry now [c2, c1, c3]
           = Some \<lparr>date = date c2, raw = raw c2, confidence = 1, days_until = 400\<rparr>
       \<and> select_best_expiry now [c2, c3, c1]
           = Some \<lparr>date = date c2, raw = raw c2, confidence = 1, days_until = 400\<rparr>
       \<and> select_best_expiry now [c3, c2, c1]
           = Some \<lparr>date = date c2, raw = raw c2, confidence = 1, days_until = 400\<rparr>
       \<and> score_candidate now c3
           = \<lparr>date = date c3, raw = raw c3, confidence = double_of 0.255, days_until = 2000\<rparr>"
  using scores_085 by (simp add: assms select_best_expiry_def score_candidate_def)

theorem select_best_expiry_example_witness:
  "select_best_expiry (midnight 2026 1 1)
     [\<lparr>date = midnight 2031 6 24, raw = ''24-06-2031'', confidence = 0.85\<rparr>,
      \<lparr>date = midnight 2026 1 11, raw = ''11-01-2026'', confidence = 0.85\<rparr>,
      \<lparr>date = midnight 2027 2 5, raw = ''05-02-2027'', confidence = 0.85\<rparr>]
     = Some \<lparr>date = midnight 2026 1 11, raw = ''11-01-2026'', confidence = 1, days_until = 10\<rparr>
   \<and> select_best_expiry (midnight 2026 1 1)
     [\<lparr>date = midnight 2031 6 24, raw = ''24-06-2031'', confidence = 0.85\<rparr>,
      \<lparr>date = midnight 2027 2 5, raw = ''05-02-2027'', confidence = 0.85\<rparr>,
      \<lparr>date = midnight 2026 1 11, raw = ''11-01-2026'', confidence = 0.85\<rparr>]
     = Some \<lparr>date = midnight 2027 2 5, raw = ''05-02-2027'', confidence = 1, days_until = 400\<rparr>
   \<and> select_best_expiry (midnight 2026 1 1)
     [\<lparr>date = midnight 2027 2 5, raw = ''05-02-2027'', confidence = 0.85\<rparr>,
      \<lparr>date = midnight 2026 1 11, raw = ''11-01-2026'', confidence = 0.85\<rparr>,
      \<lparr>date = midnight 2031 6 24, raw = ''24-06-2031'', confidence = 0.85\<rparr>]
     = Some \<lparr>date = midnight 2027 2 5, raw = ''05-02-2027'', confidence = 1, days_until = 400\<rparr>
   \<and> score_candidate (midnight 2026 1 1)
        \<lparr>date = midnight 2031 6 24, raw = ''24-06-2031'', confidence = 0.85\<rparr>
     = \<lparr>date = midnight 2031 6 24, raw = ''24-06-2031'',
        confidence = 4593671619917906 / 18014398509481984, days_until = 2000\<rparr>"
proof -
  have a: "timedelta_days (midnight 2026 1 11) (midnight 2026 1 1) = 10" by (simp add: cal_defs)
  have b: "timedelta_days (midnight 2027 2 5) (midnight 2026 1 1) = 400" by (simp add: cal_defs)
  have c: "timedelta_days (midnight 2031 6 24) (midnight 2026 1 1) = 2000" by (simp add: cal_defs)
  have f: "double_of 0.255 = 4593671619917906 / 18014398509481984" by (simp add: float_eval)
  show ?thesis
    using select_best_expiry_example
      [of "\<lparr>date = midnight 2026 1 11, raw = ''11-01-2026'', confidence = 0.85\<rparr>" "midnight 2026 1 1"
          "\<lparr>date = midnight 2027 2 5, raw = ''05-02-2027'', confidence = 0.85\<rparr>"
          "\<lparr>date = midnight 2031 6 24, raw = ''24-06-2031'', confidence = 0.85\<rparr>"]
      a b c f
    by simp
qed

text \<open>
  Claim C4, as stated, fails: in the order 10, 400, 2000 the candidate 10 days ahead is
  selected, not the one 400 days ahead.
\<close>

theorem select_best_expiry_example_counterexample:
  "timedelta_days (midnight 2026 1 11) (midnight 2026 1 1) = 10
   \<and> timedelta_days (midnight 2027 2 5) (midnight 2026 1 1) = 400
   \<and> timedelta_days (midnight 2031 6 24) (midnight 2026 1 1) = 2000
   \<and> map_option days_until
       (select_best_expiry (midnight 2026 1 1)
          [\<lparr>date = midnight 2026 1 11, raw = ''11-01-2026'', confidence = 0.85\<rparr>,
           \<lparr>date = midnight 2027 2 5, raw = ''05-02-2027'', confidence = 0.85\<rparr>,
           \<lparr>date = midnight 2031 6 24, raw = ''24-06-2031'', confidence = 0.85\<rparr>]) = Some 10"
proof -
  have a: "timedelta_days (midnight 2026 1 11) (midnight 2026 1 1) = 10" by (simp add: cal_defs)
  have b: "timedelta_days (midnight 2027 2 5) (midnight 2026 1 1) = 400" by (simp add: cal_defs)
  have c: "timedelta_days (midnight 2031 6 24) (midnight 2026 1 1) = 2000" by (simp add: cal_defs)
  show ?thesis using scores_085 by (simp add: a b c select_best_expiry_def score_candidate_def)
qed

text \<open>
  Claim C9. \<open>select_best_expiry\<close> returns nothing exactly when the list of candidates is
  empty; for a non-empty list it returns one of the candidates, scored; and the facade
  never returns the failure "Found dates but none valid as future expiry".
\<close>

theorem select_best_expiry_total:
  "(select_best_expiry now cs = None \<longleftrightarrow> cs = [])
   \<and> (cs \<noteq> [] \<longrightarrow> (\<exists>c \<in> set cs. select_best_expiry now cs = Some (score_candidate now c)))
   \<and> extract_expiry_date e image_path now1 now2 \<noteq> NoValidExpiry raws oc"
proof -
  have "cs \<noteq> [] \<longrightarrow> (\<exists>c \<in> set cs. select_best_expiry now cs = Some (score_candidate now c))"
    using select_best_expiry_first_max [of cs now] by auto
  moreover have "extract_expiry_date e image_path now1 now2 \<noteq> NoValidExpiry raws oc"
    using detect_not_NoValidExpiry [of e image_path now1 now2 raws oc]
    by (auto simp: extract_expiry_date_def split: sum.splits)
  ultimately show ?thesis by (simp add: select_none_iff)
qed

theorem select_best_expiry_total_witness:
  "select_best_expiry (midnight 2026 1 1) [] = None
   \<and> select_best_expiry (midnight 2026 1 1)
        [\<lparr>date = midnight 2019 1 12, raw = ''12-01-2019'', confidence = 0.85\<rparr>] \<noteq> None
   \<and> extract_expiry_date
        \<lparr>is_file = \<lambda>p. False, imread = \<lambda>p. (None :: unit option), cv_pipeline = Inr,
         tesseract = \<lambda>i psm. Inr ([], [])\<rparr> ''milk.jpeg'' (midnight 2026 1 1) (midnight 2026 1 1)
       \<noteq> NoValidExpiry [] 0"
  using select_best_expiry_total [of "midnight 2026 1 1" "[]"
      "\<lparr>is_file = \<lambda>p. False, imread = \<lambda>p. (None :: unit option), cv_pipeline = Inr,
         tesseract = \<lambda>i psm. Inr ([], [])\<rparr>" "''milk.jpeg''" "midnight 2026 1 1" "midnight 2026 1 1" "[]" 0]
    select_best_expiry_total [of "midnight 2026 1 1"
        "[\<lparr>date = midnight 2019 1 12, raw = ''12-01-2019'', confidence = 0.85\<rparr>]"
      "\<lparr>is_file = \<lambda>p. False, imread = \<lambda>p. (None :: unit option), cv_pipeline = Inr,
         tesseract = \<lambda>i psm. Inr ([], [])\<rparr>" "''milk.jpeg''" "midnight 2026 1 1" "midnight 2026 1 1" "[]" 0]
  by simp

section \<open>The recognition adapter and the facade\<close>

lemma py_strip_empty_iff: "py_strip s = [] \<longleftrightarrow> (\<forall>c \<in> set s. is_space c)"
proof -
  have "py_strip s = [] \<longleftrightarrow> (\<forall>c \<in> set (dropWhile is_space s). is_space c)"
    by (simp add: py_strip_def dropWhile_eq_Nil_conv)
  also have "\<dots> \<longleftrightarrow> dropWhile is_space s = []"
  proof
    assume a: "\<forall>c \<in> set (dropWhile is_space s). is_space c"
    show "dropWhile is_space s = []"
    proof (rule ccontr)
      assume n: "dropWhile is_space s \<noteq> []"
      then have "\<not> is_space (hd (dropWhile is_space s))" by (rule hd_dropWhile)
      moreover have "hd (dropWhile is_space s) \<in> set (dropWhile is_space s)" using n by simp
      ultimately show False using a by blast
    qed
  next
    assume e: "dropWhile is_space s = []"
    show "\<forall>c \<in> set (dropWhile is_space s). is_space c" unfolding e by simp
  qed
  also have "\<dots> \<longleftrightarrow> (\<forall>c \<in> set s. is_space c)"
    by (rule dropWhile_eq_Nil_conv)
  finally show ?thesis .
qed

lemma ocr_passes_kept:
  "ocr_passes run ps (texts, confs) =
     (texts @ map fst (List.map_filter (\<lambda>psm. spec_pass (run psm)) ps),
      confs @ map snd (List.map_filter (\<lambda>psm. spec_pass (run psm)) ps))"
proof (induction ps arbitrary: texts confs)
  case Nil
  show ?case by (simp add: List.map_filter_simps)
next
  case (Cons psm ps)
  show ?case
  proof (cases "run psm")
    case (Inl e)
    then show ?thesis by (simp add: Cons.IH List.map_filter_simps spec_pass_def)
  next
    case (Inr tc)
    obtain body conf where tc: "tc = (body, conf)" by (cases tc)
    show ?thesis
      using Inr tc
      by (simp add: Cons.IH List.map_filter_simps spec_pass_def py_strip_empty_iff mean_def Let_def)
  qed
qed

lemma mean_bounds:
  assumes "xs \<noteq> []" and "\<forall>x \<in> set xs. a \<le> x \<and> x \<le> b"
  shows "a \<le> mean xs \<and> mean xs \<le> b"
proof -
  have lo: "real (length xs) * a \<le> sum_list xs" using assms(2)
    by (induction xs) (auto simp: algebra_simps)
  have hi: "sum_list xs \<le> real (length xs) * b" using assms(2)
    by (induction xs) (auto simp: algebra_simps)
  have pos: "0 < real (length xs)" using assms(1) by simp
  show ?thesis using lo hi pos
    by (simp add: mean_def pos_le_divide_eq pos_divide_le_eq mult.commute)
qed

lemma spec_pass_bounds:
  assumes "spec_pass (Inr (text, conf)) = Some (t, v)" and "\<forall>c \<in> set conf. c \<le> 100"
  shows "0 \<le> v \<and> v \<le> 1"
proof (cases "filter (\<lambda>c. 0 \<le> c) conf = []")
  case True
  with assms(1) show ?thesis by (auto simp: spec_pass_def split: if_splits)
next
  case False
  let ?toks = "map real_of_int (filter (\<lambda>c. 0 \<le> c) conf)"
  have ne: "?toks \<noteq> []" using False by simp
  have "\<forall>x \<in> set ?toks. 0 \<le> x \<and> x \<le> 100" using assms(2) by auto
  from mean_bounds [OF ne this] have "0 \<le> mean ?toks \<and> mean ?toks \<le> 100" .
  moreover have "v = mean ?toks / 100"
    using assms(1) False by (auto simp: spec_pass_def mean_def Let_def split: if_splits)
  ultimately show ?thesis by simp
qed

lemma extract_empty: "extract_potential_dates [] = Inr []"
  by code_simp

text \<open>
  Claim C8. \<open>extract_text\<close> is the adapter of the specification: over the four passes
  6, 7, 11, 3, a pass that throws or whose text is empty or all whitespace is dropped; a
  kept pass has the mean of its non-negative token confidences over 100 (0 when it has
  none); the result is the kept texts joined by one space, in the order of the passes,
  with the mean of the kept confidences. That confidence lies in [0, 1] when no token
  confidence exceeds 100. When every pass is dropped the result is the empty text with
  confidence 0, not an error.
\<close>

theorem extract_text_aggregate:
  "extract_text run = spec_recognize run
   \<and> ((\<forall>psm text conf. run psm = Inr (text, conf) \<longrightarrow> (\<forall>c \<in> set conf. c \<le> 100))
        \<longrightarrow> 0 \<le> snd (extract_text run) \<and> snd (extract_text run) \<le> 1)
   \<and> ((\<forall>psm \<in> set [6, 7, 11, 3]. spec_pass (run psm) = None) \<longrightarrow> extract_text run = ([], 0))"
proof -
  let ?kept = "List.map_filter (\<lambda>psm. spec_pass (run psm)) [6, 7, 11, 3]"
  have eq: "extract_text run = spec_recognize run"
    by (simp add: extract_text_def spec_recognize_def ocr_passes_kept mean_def Let_def
        del: ocr_passes.simps)
  have bnd: "0 \<le> snd (extract_text run) \<and> snd (extract_text run) \<le> 1"
    if h: "\<forall>psm text conf. run psm = Inr (text, conf) \<longrightarrow> (\<forall>c \<in> set conf. c \<le> 100)"
  proof (cases "?kept = []")
    case True
    then show ?thesis by (simp add: eq spec_recognize_def)
  next
    case False
    have "\<forall>x \<in> set (map snd ?kept). 0 \<le> x \<and> x \<le> 1"
    proof
      fix x assume "x \<in> set (map snd ?kept)"
      then obtain t psm where sp: "spec_pass (run psm) = Some (t, x)"
        unfolding set_map set_map_filter by auto
      then obtain body conf where r: "run psm = Inr (body, conf)"
        by (cases "run psm") (auto simp: spec_pass_def)
      with h have "\<forall>c \<in> set conf. c \<le> 100" by blast
      with spec_pass_bounds [of body conf t x] sp r show "0 \<le> x \<and> x \<le> 1" by simp
    qed
    from mean_bounds [OF _ this] False have "0 \<le> mean (map snd ?kept) \<and> mean (map snd ?kept) \<le> 1"
      by simp
    then show ?thesis using False by (simp add: eq spec_recognize_def mean_def Let_def)
  qed
  have none: "extract_text run = ([], 0)"
    if "\<forall>psm \<in> set [6, 7, 11, 3]. spec_pass (run psm) = None"
    using that by (simp add: eq spec_recognize_def List.map_filter_simps)
  show ?thesis using eq bnd none by blast
qed

theorem extract_text_aggregate_witness:
  "extract_text (\<lambda>psm. if psm = 6 then Inl (ExternalError ''tesseract failed'')
                        else if psm = 7 then Inr (''EXP 05/11/2026'', [90, - 1, 80])
                        else if psm = 11 then Inr (''  '', [50])
                        else Inr (''05/11/26'', [- 1]))
     = (''EXP 05/11/2026 05/11/26'', 0.425)
   \<and> extract_text (\<lambda>psm. Inl (ExternalError ''tesseract failed'')) = ([], 0)"
proof -
  let ?run = "\<lambda>psm::nat. if psm = 6 then Inl (ExternalError ''tesseract failed'')
                        else if psm = 7 then Inr (''EXP 05/11/2026'', [90, - 1, 80])
                        else if psm = 11 then Inr (''  '', [50])
                        else Inr (''05/11/26'', [- 1::int])"
  have s: "spec_recognize ?run = (''EXP 05/11/2026 05/11/26'', 0.425)" by code_simp
  have n: "\<forall>psm \<in> set [6, 7, 11, 3].
             spec_pass ((\<lambda>psm. Inl (ExternalError ''tesseract failed'')) psm) = None"
    by (simp add: spec_pass_def)
  have z: "extract_text (\<lambda>psm. Inl (ExternalError ''tesseract failed'')) = ([], 0)"
    using extract_text_aggregate [of "\<lambda>psm. Inl (ExternalError ''tesseract failed'')"] n by blast
  have "extract_text ?run = spec_recognize ?run"
    using extract_text_aggregate [of ?run] by blast
  with s z show ?thesis by simp
qed

lemma extract_expiry_date_success:
  assumes "load_image e image_path = Inr raw_img"
    and "preprocess e raw_img = Inr processed"
    and "extract_text (tesseract e processed) = (recognized, ocr_conf)"
    and "extract_potential_dates recognized = Inr cs"
    and "select_best_expiry now1 cs = Some best"
  shows "extract_expiry_date e image_path now1 now2 =
           Success (strftime_ymd (date best)) (raw best) (round3 (confidence best))
             (timedelta_days (date best) now2) (round3 ocr_conf)"
proof -
  have "cs \<noteq> []" using assms(5) select_none_iff [of now1 cs] by auto
  then show ?thesis using assms by (simp add: extract_expiry_date_def detect_def)
qed

text \<open>
  Claim C7, as amended. When extraction finds no candidate, \<open>extract_expiry_date\<close>
  returns the failure "No date pattern matched in text" with the OCR confidence and the
  recognized text, cut to 200 characters followed by "..." when it is longer. An exception
  that leaves a stage of the pipeline (loading the image, preprocessing, extracting the
  dates) is caught and returned as a failure with the message of the exception and OCR
  confidence 0.0; no exception reaches the caller. An exception inside a recognition pass
  does not reach the facade: the adapter drops that pass, and when all four passes throw
  the result is the failure "No date pattern matched in text" with empty text and
  confidence 0.0.
\<close>

theorem extract_expiry_date_failures:
  "(load_image e image_path = Inl ex
      \<longrightarrow> extract_expiry_date e image_path now1 now2 = Crashed (exn_str ex) 0)
   \<and> (load_image e image_path = Inr raw_img \<and> preprocess e raw_img = Inl ex
      \<longrightarrow> extract_expiry_date e image_path now1 now2 = Crashed (exn_str ex) 0)
   \<and> (load_image e image_path = Inr raw_img \<and> preprocess e raw_img = Inr processed
        \<and> extract_text (tesseract e processed) = (recognized, ocr_conf)
      \<longrightarrow> (extract_potential_dates recognized = Inl ex
             \<longrightarrow> extract_expiry_date e image_path now1 now2 = Crashed (exn_str ex) 0)
        \<and> (extract_potential_dates recognized = Inr []
             \<longrightarrow> extract_expiry_date e image_path now1 now2 =
                   NoDateMatched
                     (if 200 < length recognized then take 200 recognized @ ''...'' else recognized)
                     ocr_conf)
        \<and> ((\<forall>psm \<in> set [6, 7, 11, 3]. \<exists>ex'. tesseract e processed psm = Inl ex')
             \<longrightarrow> extract_expiry_date e image_path now1 now2 = NoDateMatched [] 0))"
proof -
  have all_raise: "extract_expiry_date e image_path now1 now2 = NoDateMatched [] 0"
    if l: "load_image e image_path = Inr raw_img" and p: "preprocess e raw_img = Inr processed"
      and r: "\<forall>psm \<in> set [6, 7, 11, 3]. \<exists>ex'. tesseract e processed psm = Inl ex'"
  proof -
    from r have "extract_text (tesseract e processed) = ([], 0)"
      by (auto simp: extract_text_def)
    then show ?thesis using l p
      by (simp add: extract_expiry_date_def detect_def extract_empty)
  qed
  have c1: "load_image e image_path = Inl ex
      \<longrightarrow> extract_expiry_date e image_path now1 now2 = Crashed (exn_str ex) 0"
    by (simp add: extract_expiry_date_def detect_def)
  have c2: "load_image e image_path = Inr raw_img \<and> preprocess e raw_img = Inl ex
      \<longrightarrow> extract_expiry_date e image_path now1 now2 = Crashed (exn_str ex) 0"
    by (simp add: extract_expiry_date_def detect_def)
  have c3: "extract_potential_dates recognized = Inl ex
             \<longrightarrow> extract_expiry_date e image_path now1 now2 = Crashed (exn_str ex) 0"
    if "load_image e image_path = Inr raw_img" and "preprocess e raw_img = Inr processed"
      and "extract_text (tesseract e processed) = (recognized, ocr_conf)"
    using that by (simp add: extract_expiry_date_def detect_def)
  have c4: "extract_potential_dates recognized = Inr []
             \<longrightarrow> extract_expiry_date e image_path now1 now2 =
                   NoDateMatched
                     (if 200 < length recognized then take 200 recognized @ ''...'' else recognized)
                     ocr_conf"
    if "load_image e image_path = Inr raw_img" and "preprocess e raw_img = Inr processed"
      and "extract_text (tesseract e processed) = (recognized, ocr_conf)"
    using that by (simp add: extract_expiry_date_def detect_def)
  show ?thesis
    using c1 c2 c3 c4 all_raise by blast
qed

theorem extract_expiry_date_failures_witness:
  "extract_expiry_date
      \<lparr>is_file = \<lambda>p. False, imread = \<lambda>p. Some (), cv_pipeline = Inr,
       tesseract = \<lambda>i psm. Inr (''MFG 12-01-2019'', [90])\<rparr>
      ''milk.jpeg'' (midnight 2026 1 1) (midnight 2026 1 1)
     = Crashed ''Image not found: milk.jpeg'' 0
   \<and> extract_expiry_date
      \<lparr>is_file = \<lambda>p. True, imread = \<lambda>p. Some (), cv_pipeline = Inr,
       tesseract = \<lambda>i psm. if psm = 6 then Inr (''MFG 12-01-2019'', [90]) else Inr ([], [])\<rparr>
      ''milk.jpeg'' (midnight 2026 1 1) (midnight 2026 1 1)
     = NoDateMatched ''MFG 12-01-2019'' 0.9"
proof -
  let ?e1 = "\<lparr>is_file = \<lambda>p. False, imread = \<lambda>p. Some (), cv_pipeline = Inr,
       tesseract = \<lambda>i psm. Inr (''MFG 12-01-2019'', [90])\<rparr>"
  let ?e2 = "\<lparr>is_file = \<lambda>p. True, imread = \<lambda>p. Some (), cv_pipeline = Inr,
       tesseract = \<lambda>i psm. if psm = 6 then Inr (''MFG 12-01-2019'', [90]) else Inr ([], [])\<rparr>"
  have a: "load_image ?e1 ''milk.jpeg'' = Inl (FileNotFoundError ''Image not found: milk.jpeg'')"
    by (simp add: load_image_def)
  have h1: "load_image ?e2 ''milk.jpeg'' = Inr ()" by (simp add: load_image_def)
  have h2: "preprocess ?e2 () = Inr ()" by (simp add: preprocess_def)
  have h3: "extract_text (tesseract ?e2 ()) = (''MFG 12-01-2019'', 0.9)" by code_simp
  have h4: "extract_potential_dates ''MFG 12-01-2019'' = Inr []" by code_simp
  show ?thesis
    using extract_expiry_date_failures [of ?e1 "''milk.jpeg''"
        "FileNotFoundError ''Image not found: milk.jpeg''" "midnight 2026 1 1" "midnight 2026 1 1"]
      extract_expiry_date_failures [of ?e2 "''milk.jpeg''" _ "midnight 2026 1 1" "midnight 2026 1 1"
        "()" "()" "''MFG 12-01-2019''" "0.9"]
      a h1 h2 h3 h4
    by simp
qed

text \<open>
  Claim C7, as stated, fails: the first recognition pass throws, and the facade returns a
  success, with the OCR confidence of the remaining passes.
\<close>

theorem extract_expiry_date_failures_counterexample:
  "tesseract
        \<lparr>is_file = \<lambda>p. True, imread = \<lambda>p. Some (), cv_pipeline = Inr,
         tesseract = \<lambda>i psm. if psm = 6 then Inl (ExternalError ''tesseract failed'')
                              else if psm = 7 then Inr (''05/11/2026'', [90, - 1]) else Inr ([], [])\<rparr>
        () 6 = Inl (ExternalError ''tesseract failed'')
   \<and> extract_expiry_date
        \<lparr>is_file = \<lambda>p. True, imread = \<lambda>p. Some (), cv_pipeline = Inr,
         tesseract = \<lambda>i psm. if psm = 6 then Inl (ExternalError ''tesseract failed'')
                              else if psm = 7 then Inr (''05/11/2026'', [90, - 1]) else Inr ([], [])\<rparr>
        ''milk.jpeg'' (midnight 2026 1 1) (midnight 2026 1 1)
      = Success ''2026-11-05'' ''05/11/2026'' 1 308 0.9"
proof -
  let ?e = "\<lparr>is_file = \<lambda>p. True, imread = \<lambda>p. Some (), cv_pipeline = Inr,
         tesseract = \<lambda>i psm. if psm = 6 then Inl (ExternalError ''tesseract failed'')
                              else if psm = 7 then Inr (''05/11/2026'', [90, - 1]) else Inr ([], [])\<rparr>"
  have h1: "load_image ?e ''milk.jpeg'' = Inr ()" by (simp add: load_image_def)
  have h2: "preprocess ?e () = Inr ()" by (simp add: preprocess_def)
  have h3: "extract_text (tesseract ?e ()) = (''05/11/2026'', 0.9)" by code_simp
  have h4: "extract_potential_dates ''05/11/2026''
     = Inr [\<lparr>date = midnight 2026 11 5, raw = ''05/11/2026'', confidence = 0.85\<rparr>]" by code_simp
  have d: "timedelta_days (midnight 2026 11 5) (midnight 2026 1 1) = 308" by (simp add: cal_defs)
  have h5: "select_best_expiry (midnight 2026 1 1)
              [\<lparr>date = midnight 2026 11 5, raw = ''05/11/2026'', confidence = 0.85\<rparr>]
     = Some \<lparr>date = midnight 2026 11 5, raw = ''05/11/2026'', confidence = 1, days_until = 308\<rparr>"
    using scores_085 by (simp add: select_best_expiry_def score_candidate_def d)
  have s: "strftime_ymd (midnight 2026 11 5) = ''2026-11-05''" by code_simp
  have r: "round3 1 = 1" "round3 0.9 = 0.9" by (simp_all add: round3_def round_half_even_def)
  show ?thesis
    using extract_expiry_date_success [OF h1 h2 h3 h4 h5, of "midnight 2026 1 1"]
    by (simp add: d s r)
qed

text \<open>
  Claim C6, as amended. \<open>select_best_expiry\<close> reads the clock itself, and the facade
  reads it a second time for the days until expiry that it reports. With both readings
  as inputs: the facade succeeds with the date and the matched text of the selected
  candidate and reports the days from the selected date to its own reading; the
  selection's \<open>days_until\<close> is the days to the selector's reading; the two agree when
  the readings are equal, and the facade's value is never the greater when the clock has
  not gone backwards.
\<close>

theorem extract_expiry_date_days_left:
  assumes "load_image e image_path = Inr raw_img"
    and "preprocess e raw_img = Inr processed"
    and "extract_text (tesseract e processed) = (recognized, ocr_conf)"
    and "extract_potential_dates recognized = Inr cs"
    and "cs \<noteq> []"
  shows "\<exists>best conf oc. select_best_expiry now1 cs = Some best
           \<and> extract_expiry_date e image_path now1 now2 =
               Success (strftime_ymd (date best)) (raw best) conf
                 (timedelta_days (date best) now2) oc
           \<and> days_until best = timedelta_days (date best) now1
           \<and> (now2 = now1 \<longrightarrow> timedelta_days (date best) now2 = days_until best)
           \<and> (to_micros now1 \<le> to_micros now2 \<longrightarrow> timedelta_days (date best) now2 \<le> days_until best)"
proof -
  from assms(5) obtain best where b: "select_best_expiry now1 cs = Some best"
    using select_none_iff [of now1 cs] by (cases "select_best_expiry now1 cs") auto
  have d: "days_until best = timedelta_days (date best) now1"
    using b by (rule select_best_expiry_days)
  have "extract_expiry_date e image_path now1 now2 =
               Success (strftime_ymd (date best)) (raw best) (round3 (confidence best))
                 (timedelta_days (date best) now2) (round3 ocr_conf)"
    using assms(1-4) b by (rule extract_expiry_date_success)
  moreover have "to_micros now1 \<le> to_micros now2 \<longrightarrow> timedelta_days (date best) now2 \<le> days_until best"
    using timedelta_days_antimono [of now1 now2 "date best"] d by simp
  ultimately show ?thesis using b d by auto
qed

theorem extract_expiry_date_days_left_witness:
  "\<exists>best conf oc. select_best_expiry (midnight 2026 1 1)
              [\<lparr>date = midnight 2026 11 5, raw = ''05/11/2026'', confidence = 0.85\<rparr>] = Some best
     \<and> extract_expiry_date
          \<lparr>is_file = \<lambda>p. True, imread = \<lambda>p. Some (), cv_pipeline = Inr,
           tesseract = \<lambda>i psm. if psm = 7 then Inr (''05/11/2026'', [90, - 1]) else Inr ([], [])\<rparr>
          ''milk.jpeg'' (midnight 2026 1 1) (midnight 2026 1 1)
        = Success (strftime_ymd (date best)) (raw best) conf
            (timedelta_days (date best) (midnight 2026 1 1)) oc
     \<and> days_until best = timedelta_days (date best) (midnight 2026 1 1)"
proof -
  let ?e = "\<lparr>is_file = \<lambda>p. True, imread = \<lambda>p. Some (), cv_pipeline = Inr,
           tesseract = \<lambda>i psm. if psm = 7 then Inr (''05/11/2026'', [90, - 1]) else Inr ([], [])\<rparr>"
  have h1: "load_image ?e ''milk.jpeg'' = Inr ()" by (simp add: load_image_def)
  have h2: "preprocess ?e () = Inr ()" by (simp add: preprocess_def)
  have h3: "extract_text (tesseract ?e ()) = (''05/11/2026'', 0.9)" by code_simp
  have h4: "extract_potential_dates ''05/11/2026''
     = Inr [\<lparr>date = midnight 2026 11 5, raw = ''05/11/2026'', confidence = 0.85\<rparr>]" by code_simp
  have h5: "[\<lparr>date = midnight 2026 11 5, raw = ''05/11/2026'', confidence = 0.85\<rparr>] \<noteq> []" by simp
  show ?thesis
    using extract_expiry_date_days_left [OF h1 h2 h3 h4 h5, of "midnight 2026 1 1" "midnight 2026 1 1"]
    by auto
qed

text \<open>
  Claim C6, as stated, fails: midnight passes between the two readings of the clock, and
  the facade reports 306 days for a candidate that the selection scored with 307.
\<close>

theorem extract_expiry_date_days_left_counterexample:
  "extract_potential_dates ''05/11/2026''
     = Inr [\<lparr>date = midnight 2026 11 5, raw = ''05/11/2026'', confidence = 0.85\<rparr>]
   \<and> map_option days_until
       (select_best_expiry
          \<lparr>year = 2026, month = 1, day = 1, hour = 23, minute = 59, second = 59, microsecond = 0\<rparr>
          [\<lparr>date = midnight 2026 11 5, raw = ''05/11/2026'', confidence = 0.85\<rparr>]) = Some 307
   \<and> extract_expiry_date
        \<lparr>is_file = \<lambda>p. True, imread = \<lambda>p. Some (), cv_pipeline = Inr,
         tesseract = \<lambda>i psm. if psm = 7 then Inr (''05/11/2026'', [90, - 1]) else Inr ([], [])\<rparr>
        ''milk.jpeg''
        \<lparr>year = 2026, month = 1, day = 1, hour = 23, minute = 59, second = 59, microsecond = 0\<rparr>
        \<lparr>year = 2026, month = 1, day = 2, hour = 0, minute = 0, second = 1, microsecond = 0\<rparr>
      = Success ''2026-11-05'' ''05/11/2026'' 1 306 0.9"
proof -
  let ?e = "\<lparr>is_file = \<lambda>p. True, imread = \<lambda>p. Some (), cv_pipeline = Inr,
           tesseract = \<lambda>i psm. if psm = 7 then Inr (''05/11/2026'', [90, - 1]) else Inr ([], [])\<rparr>"
  let ?n1 = "\<lparr>year = 2026, month = 1, day = 1, hour = 23, minute = 59, second = 59, microsecond = 0\<rparr>"
  let ?n2 = "\<lparr>year = 2026, month = 1, day = 2, hour = 0, minute = 0, second = 1, microsecond = 0\<rparr>"
  have h1: "load_image ?e ''milk.jpeg'' = Inr ()" by (simp add: load_image_def)
  have h2: "preprocess ?e () = Inr ()" by (simp add: preprocess_def)
  have h3: "extract_text (tesseract ?e ()) = (''05/11/2026'', 0.9)" by code_simp
  have h4: "extract_potential_dates ''05/11/2026''
     = Inr [\<lparr>date = midnight 2026 11 5, raw = ''05/11/2026'', confidence = 0.85\<rparr>]" by code_simp
  have d1: "timedelta_days (midnight 2026 11 5) ?n1 = 307" by (simp add: cal_defs)
  have d2: "timedelta_days (midnight 2026 11 5) ?n2 = 306" by (simp add: cal_defs)
  have h5: "select_best_expiry ?n1
              [\<lparr>date = midnight 2026 11 5, raw = ''05/11/2026'', confidence = 0.85\<rparr>]
     = Some \<lparr>date = midnight 2026 11 5, raw = ''05/11/2026'', confidence = 1, days_until = 307\<rparr>"
    using scores_085 by (simp add: select_best_expiry_def score_candidate_def d1)
  have s: "strftime_ymd (midnight 2026 11 5) = ''2026-11-05''" by code_simp
  have r: "round3 1 = 1" "round3 0.9 = 0.9" by (simp_all add: round3_def round_half_even_def)
  have "extract_expiry_date ?e ''milk.jpeg'' ?n1 ?n2 = Success ''2026-11-05'' ''05/11/2026'' 1 306 0.9"
    using extract_expiry_date_success [OF h1 h2 h3 h4 h5, of ?n2]
    by (simp add: d2 s r)
  then show ?thesis using h4 h5 by simp
qed

end
